theory Spec2Isabelle
  imports Complex_Main "HOL-Library.Log_Nat"
begin

unbundle bit_operations_syntax

section \<open>Python values, exceptions and results\<close>

text \<open>
  The driver is Python: integers are unbounded (\<open>int\<close>), a byte string is a list of
  integers each in \<open>range(256)\<close>, and every \<^verbatim>\<open>raise\<close> is a value of \<open>error\<close> on the
  left of a sum.
\<close>

datatype error =
    ValueError          \<comment> \<open>a bytearray item outside \<open>range(256)\<close>, or \<open>int(s, 2)\<close> on a bad literal\<close>
  | IndexError          \<comment> \<open>a bytearray index out of range\<close>
  | OverflowError       \<comment> \<open>\<open>round\<close> of an infinite float, or an int too large for a float\<close>
  | RuntimeError        \<comment> \<open>\<open>"Serial port not open"\<close>\<close>
  | ZeroDivisionError   \<comment> \<open>float division by zero\<close>
  | NoAsicChipsFound    \<comment> \<open>\<open>Exception("No ASIC chips found")\<close>\<close>

definition bindE :: "error + 'a \<Rightarrow> ('a \<Rightarrow> error + 'b) \<Rightarrow> error + 'b" where
  "bindE m f = (case m of Inl e \<Rightarrow> Inl e | Inr a \<Rightarrow> f a)"

definition is_byte :: "int \<Rightarrow> bool" where
  "is_byte b = (0 \<le> b \<and> b < 256)"

subsection \<open>bytearray\<close>

text \<open>\<^verbatim>\<open>buf[i] = v\<close> on a bytearray, \<open>i\<close> a non-negative index.\<close>

definition bytearray_set :: "int list \<Rightarrow> nat \<Rightarrow> int \<Rightarrow> error + int list" where
  "bytearray_set buf i v =
     (if length buf \<le> i then Inl IndexError
      else if \<not> is_byte v then Inl ValueError
      else Inr (buf[i := v]))"

text \<open>\<^verbatim>\<open>buf[lo:hi] = vals\<close>: the slice bounds are clamped to the buffer.\<close>

definition bytearray_set_slice :: "int list \<Rightarrow> nat \<Rightarrow> nat \<Rightarrow> int list \<Rightarrow> error + int list" where
  "bytearray_set_slice buf lo hi vals =
     (if \<not> list_all is_byte vals then Inl ValueError
      else Inr (take lo buf @ vals @ drop (max lo hi) buf))"

text \<open>\<^verbatim>\<open>buf[lo:hi]\<close>.\<close>

definition bytearray_slice :: "int list \<Rightarrow> nat \<Rightarrow> nat \<Rightarrow> int list" where
  "bytearray_slice buf lo hi = take (hi - lo) (drop lo buf)"

text \<open>\<^verbatim>\<open>bytearray(data)\<close> from a list of integers.\<close>

definition bytearray :: "int list \<Rightarrow> error + int list" where
  "bytearray data = (if list_all is_byte data then Inr data else Inl ValueError)"

section \<open>The checksum module\<close>

text \<open>
  \<^verbatim>\<open>from .crc_functions import crc5, crc16_false\<close>: the module is not part of the
  sources, so the two functions are parameters of everything that builds a frame.
\<close>

record crc_functions =
  crc5 :: "int list \<Rightarrow> int"
  crc16_false :: "int list \<Rightarrow> int"

text \<open>A stand-in for the checksum module, to run the driver on concrete inputs.\<close>

definition zero_crc :: crc_functions where
  "zero_crc = \<lparr>crc5 = (\<lambda>bs. 0), crc16_false = (\<lambda>bs. 0)\<rparr>"

section \<open>Protocol constants (bm1370.py)\<close>

definition TYPE_JOB :: int where "TYPE_JOB = 0x20"
definition TYPE_CMD :: int where "TYPE_CMD = 0x40"
definition GROUP_SINGLE :: int where "GROUP_SINGLE = 0x00"
definition GROUP_ALL :: int where "GROUP_ALL = 0x10"
definition CMD_SETADDRESS :: int where "CMD_SETADDRESS = 0x00"
definition CMD_WRITE :: int where "CMD_WRITE = 0x01"
definition CMD_READ :: int where "CMD_READ = 0x02"
definition CMD_INACTIVE :: int where "CMD_INACTIVE = 0x03"

section \<open>The serial transport (bitaxerawpy.py)\<close>

text \<open>
  What a receive callback hands back: pyserial's \<open>Serial.read\<close> always returns a
  \<open>bytes\<close> object, empty on timeout; \<open>PyNone\<close> is what \<open>count_asic_chips\<close> tests for.
\<close>

datatype rx_data = PyNone | PyBytes "int list"

text \<open>
  \<open>ctrl_serial\<close>: whether \<open>_ser\<close> is set, the frames written so far, and the results of
  the successive \<open>read\<close> calls (\<open>rx_script\<close> at \<open>rx_pos\<close> is the next one). The
  script stands for the device: the requested length and the timeout of a read decide
  what the device returns and are not looked at again.
\<close>

record hw =
  ser_open :: bool
  tx_log :: "int list list"
  rx_script :: "nat \<Rightarrow> rx_data"
  rx_pos :: nat

type_synonym 'a action = "hw \<Rightarrow> (error + 'a) \<times> hw"

definition serial_tx_func :: "int list \<Rightarrow> unit action" where
  "serial_tx_func data st =
     (if \<not> ser_open st then (Inl RuntimeError, st)
      else (Inr (), st\<lparr>tx_log := tx_log st @ [data]\<rparr>))"

definition serial_rx_func :: "nat \<Rightarrow> nat \<Rightarrow> rx_data action" where
  "serial_rx_func len timeout_ms st =
     (if \<not> ser_open st then (Inl RuntimeError, st)
      else (Inr (rx_script st (rx_pos st)), st\<lparr>rx_pos := rx_pos st + 1\<rparr>))"

section \<open>Packet framing: \<open>BM1370.send\<close>\<close>

text \<open>Lines 37 to 53 of \<open>send\<close>: the buffer handed to the transmit callback.\<close>

definition build_frame :: "crc_functions \<Rightarrow> int \<Rightarrow> int list \<Rightarrow> error + int list" where
  "build_frame C header data =
     (let packet_type = (if header AND TYPE_JOB \<noteq> 0 then TYPE_JOB else TYPE_CMD);
          data_len = length data;
          total_length = (if packet_type = TYPE_JOB then data_len + 6 else data_len + 5);
          buf = replicate total_length (0::int)
      in bindE (bytearray_set buf 0 0x55) (\<lambda>buf.
         bindE (bytearray_set buf 1 0xAA) (\<lambda>buf.
         bindE (bytearray_set buf 2 header) (\<lambda>buf.
         bindE (bytearray_set buf 3
                  (if packet_type = TYPE_JOB then int data_len + 4 else int data_len + 3)) (\<lambda>buf.
         bindE (bytearray_set_slice buf 4 (4 + data_len) data) (\<lambda>buf.
         if packet_type = TYPE_JOB then
           (let crc16_total = crc16_false C (bytearray_slice buf 2 (4 + data_len))
            in bindE (bytearray_set buf (4 + data_len) (drop_bit 8 crc16_total AND 0xFF)) (\<lambda>buf.
               bindE (bytearray_set buf (5 + data_len) (crc16_total AND 0xFF)) (\<lambda>buf.
               Inr buf)))
         else
           bindE (bytearray_set buf (4 + data_len)
                    (crc5 C (bytearray_slice buf 2 (4 + data_len)))) (\<lambda>buf.
           Inr buf)))))))"

definition send :: "crc_functions \<Rightarrow> int \<Rightarrow> int list \<Rightarrow> unit action" where
  "send C header data st =
     (case build_frame C header data of
        Inl e \<Rightarrow> (Inl e, st)
      | Inr buf \<Rightarrow> serial_tx_func buf st)"

definition send_simple :: "int list \<Rightarrow> unit action" where
  "send_simple data st =
     (case bytearray data of
        Inl e \<Rightarrow> (Inl e, st)
      | Inr buf \<Rightarrow> serial_tx_func buf st)"


definition send_chain_inactive :: "crc_functions \<Rightarrow> unit action" where
  "send_chain_inactive C = send C (TYPE_CMD OR GROUP_ALL OR CMD_INACTIVE) [0x00, 0x00]"

definition set_chip_address :: "crc_functions \<Rightarrow> int \<Rightarrow> unit action" where
  "set_chip_address C chipAddr = send C (TYPE_CMD OR GROUP_SINGLE OR CMD_SETADDRESS) [chipAddr, 0x00]"

definition set_version_mask :: "crc_functions \<Rightarrow> int \<Rightarrow> unit action" where
  "set_version_mask C version_mask =
     (let versions_to_roll = drop_bit 13 version_mask;
          version_byte0 = drop_bit 8 versions_to_roll AND 0xFF;
          version_byte1 = versions_to_roll AND 0xFF;
          version_cmd = [0x00, 0xA4, 0x90, 0x00, version_byte0, version_byte1]
      in send C (TYPE_CMD OR GROUP_ALL OR CMD_WRITE) version_cmd)"

text \<open>\<^verbatim>\<open>for x in xs: body(x)\<close>, where the body may raise.\<close>

fun forA :: "'a list \<Rightarrow> ('a \<Rightarrow> unit action) \<Rightarrow> unit action" where
  "forA [] body st = (Inr (), st)"
| "forA (x # xs) body st =
     (case body x st of (Inl e, st') \<Rightarrow> (Inl e, st') | (Inr _, st') \<Rightarrow> forA xs body st')"

section \<open>Python floats\<close>

text \<open>
  A finite Python float is an IEEE 754 binary64 value, here the rational it denotes. Each
  float operation returns the exact result rounded to the nearest binary64 value, ties to
  the even significand (\<open>rnd64\<close>); a result whose magnitude rounds to \<open>2 ^ 1024\<close> or more
  is an infinity. Infinities and NaN are not values of the model: the only operations
  that can overflow are in the argument of \<open>round\<close> in \<open>send_hash_frequency\<close>, where an
  infinity reaches \<open>round\<close> and makes it raise \<open>OverflowError\<close> (as does the conversion of
  an \<open>int\<close> that is too large), so the model raises at the operation that overflows.
  A target frequency that is itself an infinity or a NaN makes \<open>round\<close> raise on the
  first divider triple; such a call returns no divider set and is not modelled.
\<close>

definition pow2 :: "int \<Rightarrow> rat" where
  "pow2 e = 2 powi e"

text \<open>For \<open>x > 0\<close>, the exponent \<open>e\<close> with \<open>2 ^ e \<le> x < 2 ^ (e + 1)\<close>.\<close>

definition binade :: "rat \<Rightarrow> int" where
  "binade x =
     (if 1 \<le> x then int (floorlog 2 (nat \<lfloor>x\<rfloor>)) - 1
      else - int (floorlog 2 (nat (\<lceil>1 / x\<rceil> - 1))))"

text \<open>Round to the nearest integer, ties to even: also Python's one-argument \<open>round\<close>.\<close>

definition round_half_even :: "rat \<Rightarrow> int" where
  "round_half_even x =
     (let f = \<lfloor>x\<rfloor>; d = x - of_int f
      in if d < 1 / 2 then f else if 1 / 2 < d then f + 1 else if even f then f else f + 1)"

text \<open>
  The nearest value with a 53-bit significand; below \<open>2 ^ -1022\<close> the spacing stays
  \<open>2 ^ -1074\<close> (subnormals).
\<close>

definition rnd64 :: "rat \<Rightarrow> rat" where
  "rnd64 x =
     (if x = 0 then 0
      else let e = max (binade \<bar>x\<bar>) (- 1022); ulp = pow2 (e - 52)
           in sgn x * of_int (round_half_even (\<bar>x\<bar> / ulp)) * ulp)"

definition fl :: "rat \<Rightarrow> error + rat" where
  "fl x = (let r = rnd64 x in if pow2 1024 \<le> \<bar>r\<bar> then Inl OverflowError else Inr r)"

text \<open>A number passed as \<open>frequency\<close>: \<open>main\<close> passes the int 400, the default is 200.0.\<close>

datatype pynum = PyInt int | PyFloat rat

text \<open>The value used where a number meets a float in an arithmetic operation.\<close>

definition to_float :: "pynum \<Rightarrow> error + rat" where
  "to_float x = (case x of PyInt n \<Rightarrow> fl (of_int n) | PyFloat t \<Rightarrow> Inr t)"

text \<open>\<open>int(x)\<close> of a float: truncation towards zero.\<close>

definition py_int :: "rat \<Rightarrow> int" where
  "py_int x = (if 0 \<le> x then \<lfloor>x\<rfloor> else \<lceil>x\<rceil>)"

section \<open>The PLL divider search: \<open>BM1370.send_hash_frequency\<close>\<close>

record pll_state =
  fb_divider :: int
  post_divider1 :: int
  post_divider2 :: int
  ref_divider :: int
  min_difference :: rat
  newf :: rat

definition max_diff :: rat where "max_diff = 1"

definition pll_init :: pll_state where
  "pll_init = \<lparr>fb_divider = 0, post_divider1 = 0, post_divider2 = 0, ref_divider = 0,
               min_difference = 10, newf = 200\<rparr>"

text \<open>\<^verbatim>\<open>round((postdiv1 * postdiv2 * target_freq * refdiv) / 25.0)\<close>, evaluated left to right.\<close>

definition temp_fb_divider :: "pynum \<Rightarrow> int \<Rightarrow> int \<Rightarrow> int \<Rightarrow> error + int" where
  "temp_fb_divider target_freq refdiv postdiv1 postdiv2 =
     (case target_freq of
        PyInt n \<Rightarrow>
          bindE (fl (of_int (postdiv1 * postdiv2 * n * refdiv))) (\<lambda>num.
          bindE (fl (num / 25)) (\<lambda>q. Inr (round_half_even q)))
      | PyFloat t \<Rightarrow>
          bindE (fl (of_int (postdiv1 * postdiv2) * t)) (\<lambda>a.
          bindE (fl (a * of_int refdiv)) (\<lambda>num.
          bindE (fl (num / 25)) (\<lambda>q. Inr (round_half_even q)))))"

text \<open>\<^verbatim>\<open>25.0 * temp_fb_divider / (refdiv * postdiv2 * postdiv1)\<close>.\<close>

definition temp_freq :: "int \<Rightarrow> int \<Rightarrow> int \<Rightarrow> int \<Rightarrow> error + rat" where
  "temp_freq temp_fb refdiv postdiv1 postdiv2 =
     bindE (fl (of_int temp_fb)) (\<lambda>fb.
     bindE (fl (25 * fb)) (\<lambda>num.
     bindE (fl (of_int (refdiv * postdiv2 * postdiv1))) (\<lambda>den.
     if den = 0 then Inl ZeroDivisionError else fl (num / den))))"

text \<open>\<^verbatim>\<open>abs(target_freq - temp_freq)\<close>.\<close>

definition freq_diff :: "pynum \<Rightarrow> rat \<Rightarrow> error + rat" where
  "freq_diff target_freq tf =
     bindE (to_float target_freq) (\<lambda>t.
     bindE (fl (t - tf)) (\<lambda>d. Inr \<bar>d\<bar>))"

text \<open>The body of the innermost loop, lines 86 to 97.\<close>

definition pll_step :: "pynum \<Rightarrow> int \<times> int \<times> int \<Rightarrow> pll_state \<Rightarrow> error + pll_state" where
  "pll_step target_freq c s =
     (case c of (refdiv, postdiv1, postdiv2) \<Rightarrow>
        if postdiv1 \<ge> postdiv2 then
          bindE (temp_fb_divider target_freq refdiv postdiv1 postdiv2) (\<lambda>temp_fb.
          if 0xa0 \<le> temp_fb \<and> temp_fb \<le> 0xef then
            bindE (temp_freq temp_fb refdiv postdiv1 postdiv2) (\<lambda>tf.
            bindE (freq_diff target_freq tf) (\<lambda>fd.
            if fd < min_difference s \<and> fd < max_diff then
              Inr (s\<lparr>fb_divider := temp_fb, post_divider1 := postdiv1,
                      post_divider2 := postdiv2, ref_divider := refdiv,
                      min_difference := fd, newf := tf\<rparr>)
            else Inr s))
          else Inr s)
        else Inr s)"

text \<open>
  The three nested \<^verbatim>\<open>for\<close> loops visit \<open>(refdiv, postdiv1, postdiv2)\<close> in this order:
  \<open>range(2, 0, -1)\<close>, then \<open>range(7, 0, -1)\<close> twice.
\<close>

definition pll_candidates :: "(int \<times> int \<times> int) list" where
  "pll_candidates =
     concat (map (\<lambda>refdiv.
       concat (map (\<lambda>postdiv1.
         map (\<lambda>postdiv2. (refdiv, postdiv1, postdiv2)) [7, 6, 5, 4, 3, 2, 1])
         [7, 6, 5, 4, 3, 2, 1]))
       [2, 1])"

fun pll_loop :: "pynum \<Rightarrow> (int \<times> int \<times> int) list \<Rightarrow> pll_state \<Rightarrow> error + pll_state" where
  "pll_loop target_freq [] s = Inr s"
| "pll_loop target_freq (c # cs) s =
     (case pll_step target_freq c s of Inl e \<Rightarrow> Inl e | Inr s' \<Rightarrow> pll_loop target_freq cs s')"

text \<open>Lines 75 to 97: the state of the search when the loops are over.\<close>

definition pll_search :: "pynum \<Rightarrow> error + pll_state" where
  "pll_search target_freq = pll_loop target_freq pll_candidates pll_init"

text \<open>Lines 103 to 107: the register payload for the dividers found.\<close>

definition freq_payload :: "pll_state \<Rightarrow> error + int list" where
  "freq_payload s =
     (let freqbuf = [0x00, 0x08, 0x40, 0xA0, 0x02, 0x41];
          freqbuf = freqbuf[3 := fb_divider s];
          freqbuf = freqbuf[4 := ref_divider s];
          freqbuf = freqbuf[5 := push_bit 4 ((post_divider1 s - 1) AND 0xf)
                                  + ((post_divider2 s - 1) AND 0xf)]
      in bindE (fl (of_int (fb_divider s * 25))) (\<lambda>num.
         bindE (fl (of_int (ref_divider s))) (\<lambda>den.
         if den = 0 then Inl ZeroDivisionError
         else bindE (fl (num / den)) (\<lambda>vco.
              Inr (if 2400 \<le> vco then freqbuf[2 := 0x50] else freqbuf)))))"

text \<open>
  The logging calls of the source have no effect on the transport and are left out:
  when no divider set was found, the function logs an error and returns.
\<close>

definition send_hash_frequency :: "crc_functions \<Rightarrow> pynum \<Rightarrow> unit action" where
  "send_hash_frequency C target_freq st =
     (case pll_search target_freq of
        Inl e \<Rightarrow> (Inl e, st)
      | Inr s \<Rightarrow>
          if fb_divider s = 0 then (Inr (), st)
          else (case freq_payload s of
                  Inl e \<Rightarrow> (Inl e, st)
                | Inr freqbuf \<Rightarrow> send C (TYPE_CMD OR GROUP_ALL OR CMD_WRITE) freqbuf st))"

section \<open>The difficulty mask: \<open>BM1370.get_difficulty_mask\<close>\<close>

text \<open>\<^verbatim>\<open>'{:08b}'.format(byte)\<close> for \<open>byte \<ge> 0\<close>: binary digits, zero-padded to width 8.\<close>

fun bin_digits :: "nat \<Rightarrow> string" where
  "bin_digits n =
     (if n < 2 then [if n = 0 then CHR ''0'' else CHR ''1'']
      else bin_digits (n div 2) @ [if n mod 2 = 0 then CHR ''0'' else CHR ''1''])"

definition format_08b :: "nat \<Rightarrow> string" where
  "format_08b n = (let s = bin_digits n in replicate (8 - length s) CHR ''0'' @ s)"

text \<open>
  \<open>int(s, 2)\<close> on a string of binary digits; any other character is rejected, which is
  what happens to the sign that \<open>format\<close> writes for a negative number.
\<close>

fun int_base2 :: "int \<Rightarrow> string \<Rightarrow> error + int" where
  "int_base2 acc [] = Inr acc"
| "int_base2 acc (c # cs) =
     (if c = CHR ''0'' then int_base2 (2 * acc) cs
      else if c = CHR ''1'' then int_base2 (2 * acc + 1) cs
      else Inl ValueError)"

definition reverse_bits :: "int \<Rightarrow> error + int" where
  "reverse_bits byte =
     (if byte < 0 then Inl ValueError
      else int_base2 0 (rev (format_08b (nat byte))))"

text \<open>\<^verbatim>\<open>p = 1; while p * 2 <= n: p *= 2; return p\<close>.\<close>

partial_function (option) power_of_two_loop :: "int \<Rightarrow> int \<Rightarrow> int option" where
  "power_of_two_loop p n = (if p * 2 \<le> n then power_of_two_loop (p * 2) n else Some p)"

declare power_of_two_loop.simps [code]

definition largest_power_of_two :: "int \<Rightarrow> int option" where
  "largest_power_of_two n = power_of_two_loop 1 n"

text \<open>The loop \<^verbatim>\<open>for i in range(4)\<close> of \<open>get_difficulty_mask\<close>.\<close>

fun mask_loop :: "nat list \<Rightarrow> int \<Rightarrow> int list \<Rightarrow> error + int list" where
  "mask_loop [] difficulty mask' = Inr mask'"
| "mask_loop (i # is) difficulty mask' =
     (let v = drop_bit (8 * i) difficulty AND 0xFF
      in case reverse_bits v of
           Inl e \<Rightarrow> Inl e
         | Inr r \<Rightarrow> mask_loop is difficulty (mask'[5 - i := r]))"

definition get_difficulty_mask :: "int \<Rightarrow> (error + int list) option" where
  "get_difficulty_mask difficulty =
     (case largest_power_of_two difficulty of
        None \<Rightarrow> None
      | Some p \<Rightarrow> Some (mask_loop [0, 1, 2, 3] (p - 1) [0x00, 0x14, 0x00, 0x00, 0x00, 0xFF]))"

section \<open>Chip enumeration: \<open>BM1370.count_asic_chips\<close>\<close>

definition chip_id_response :: string where
  "chip_id_response = ''aa5513700000''"

text \<open>\<open>binascii.hexlify(data).decode('utf8')\<close>: two lower-case hex digits per byte.\<close>

definition hex_digit :: "int \<Rightarrow> char" where
  "hex_digit d = ''0123456789abcdef'' ! nat d"

definition hexlify :: "int list \<Rightarrow> string" where
  "hexlify data = concat (map (\<lambda>b. [hex_digit (b div 16), hex_digit (b mod 16)]) data)"

text \<open>\<^verbatim>\<open>pat in s\<close> on strings: \<open>pat\<close> occurs in \<open>s\<close> as a contiguous substring.\<close>

fun py_in :: "string \<Rightarrow> string \<Rightarrow> bool" where
  "py_in pat [] = (pat = [])"
| "py_in pat (c # cs) = (take (length pat) (c # cs) = pat \<or> py_in pat cs)"

text \<open>
  The \<^verbatim>\<open>while True\<close> loop, lines 115 to 121. It has no bound: \<open>None\<close> on the right is
  the loop that never leaves.
\<close>

partial_function (option) count_loop :: "nat \<Rightarrow> nat \<Rightarrow> hw \<Rightarrow> ((error + nat) \<times> hw) option" where
  "count_loop chip_id_response_length chip_counter st =
     (case serial_rx_func chip_id_response_length 5000 st of
        (Inl e, st1) \<Rightarrow> Some (Inl e, st1)
      | (Inr PyNone, st1) \<Rightarrow> Some (Inr chip_counter, st1)
      | (Inr (PyBytes data), st1) \<Rightarrow>
          if \<not> py_in chip_id_response (hexlify data)
          then count_loop chip_id_response_length chip_counter st1
          else count_loop chip_id_response_length (chip_counter + 1) st1)"

declare count_loop.simps [code]

definition count_asic_chips :: "crc_functions \<Rightarrow> nat \<Rightarrow> nat \<Rightarrow> hw \<Rightarrow> ((error + nat) \<times> hw) option" where
  "count_asic_chips C expected_count chip_id_response_length st =
     (case send C (TYPE_CMD OR GROUP_ALL OR CMD_READ) [0x00, 0x00] st of
        (Inl e, st1) \<Rightarrow> Some (Inl e, st1)
      | (Inr _, st1) \<Rightarrow>
          (case count_loop chip_id_response_length 0 st1 of
             None \<Rightarrow> None
           | Some (Inl e, st2) \<Rightarrow> Some (Inl e, st2)
           | Some (Inr chip_counter, st2) \<Rightarrow>
               (case send_chain_inactive C st2 of
                  (Inl e, st3) \<Rightarrow> Some (Inl e, st3)
                | (Inr _, st3) \<Rightarrow> Some (Inr chip_counter, st3))))"

section \<open>The initialisation sequence: \<open>BM1370.send_init\<close>\<close>

text \<open>
  A call that may also never return (the enumeration loop is unbounded): \<open>None\<close> is
  the call that does not return, \<open>Some (Inl e, st)\<close> the one that raises \<open>e\<close>.
\<close>

type_synonym 'a paction = "hw \<Rightarrow> ((error + 'a) \<times> hw) option"

definition bindP :: "'a paction \<Rightarrow> ('a \<Rightarrow> 'b paction) \<Rightarrow> 'b paction" where
  "bindP m f st =
     (case m st of
        None \<Rightarrow> None
      | Some (Inl e, st1) \<Rightarrow> Some (Inl e, st1)
      | Some (Inr a, st1) \<Rightarrow> f a st1)"

definition liftP :: "'a action \<Rightarrow> 'a paction" where
  "liftP m st = Some (m st)"

text \<open>A block of statements, run in order.\<close>

definition seqA :: "unit action list \<Rightarrow> unit action" where
  "seqA stmts = forA stmts (\<lambda>stmt. stmt)"

text \<open>\<^verbatim>\<open>int(256 / chip_counter)\<close>: the true division of two ints is correctly rounded.\<close>

definition address_interval :: "nat \<Rightarrow> int" where
  "address_interval chip_counter = py_int (rnd64 (256 / of_nat chip_counter))"

text \<open>Lines 140 and 141.\<close>

definition addressing :: "crc_functions \<Rightarrow> nat \<Rightarrow> unit action" where
  "addressing C chip_counter =
     forA [0..<chip_counter] (\<lambda>i. set_chip_address C (int i * address_interval chip_counter))"

text \<open>Lines 152 to 158.\<close>

definition per_chip_tuning :: "crc_functions \<Rightarrow> nat \<Rightarrow> unit action" where
  "per_chip_tuning C chip_counter =
     forA [0..<chip_counter] (\<lambda>i.
       let addr = int i * address_interval chip_counter
       in seqA
            [send C (TYPE_CMD OR GROUP_SINGLE OR CMD_WRITE) [addr, 0xA8, 0x00, 0x07, 0x01, 0xF0],
             send C (TYPE_CMD OR GROUP_SINGLE OR CMD_WRITE) [addr, 0x18, 0xF0, 0x00, 0xC1, 0x00],
             send C (TYPE_CMD OR GROUP_SINGLE OR CMD_WRITE) [addr, 0x3C, 0x80, 0x00, 0x8B, 0x00],
             send C (TYPE_CMD OR GROUP_SINGLE OR CMD_WRITE) [addr, 0x3C, 0x80, 0x00, 0x80, 0x0C],
             send C (TYPE_CMD OR GROUP_SINGLE OR CMD_WRITE) [addr, 0x3C, 0x80, 0x00, 0x82, 0xAA]])"

text \<open>Lines 147 and 148.\<close>

definition send_difficulty_mask :: "crc_functions \<Rightarrow> int \<Rightarrow> unit paction" where
  "send_difficulty_mask C difficulty st =
     (case get_difficulty_mask difficulty of
        None \<Rightarrow> None
      | Some (Inl e) \<Rightarrow> Some (Inl e, st)
      | Some (Inr difficulty_mask) \<Rightarrow>
          Some (send C (TYPE_CMD OR GROUP_ALL OR CMD_WRITE) difficulty_mask st))"

text \<open>Lines 126 to 130: up to and including the enumeration.\<close>

definition init_enumerate :: "crc_functions \<Rightarrow> nat \<Rightarrow> nat paction" where
  "init_enumerate C expected =
     bindP (liftP (forA [0..<3] (\<lambda>_. set_version_mask C 0xFFFFFFFF))) (\<lambda>_.
     bindP (liftP (send_simple [0x55, 0xAA, 0x52, 0x05, 0x00, 0x00, 0x0A])) (\<lambda>_.
     count_asic_chips C expected 11))"

text \<open>Lines 134 to 168: everything after the check of the chip count.\<close>

definition init_configure :: "crc_functions \<Rightarrow> pynum \<Rightarrow> int \<Rightarrow> nat \<Rightarrow> nat paction" where
  "init_configure C frequency difficulty chip_counter =
     bindP (liftP (seqA
       [set_version_mask C 0xFFFFFFFF,
        send C (TYPE_CMD OR GROUP_ALL OR CMD_WRITE) [0x00, 0xA8, 0x00, 0x07, 0x00, 0x00],
        send C (TYPE_CMD OR GROUP_ALL OR CMD_WRITE) [0x00, 0x18, 0xF0, 0x00, 0xC1, 0x00],
        send_chain_inactive C,
        addressing C chip_counter,
        send C (TYPE_CMD OR GROUP_ALL OR CMD_WRITE) [0x00, 0x3C, 0x80, 0x00, 0x8B, 0x00],
        send C (TYPE_CMD OR GROUP_ALL OR CMD_WRITE) [0x00, 0x3C, 0x80, 0x00, 0x80, 0x0C]])) (\<lambda>_.
     bindP (send_difficulty_mask C difficulty) (\<lambda>_.
     bindP (liftP (seqA
       [send C (TYPE_CMD OR GROUP_ALL OR CMD_WRITE) [0x00, 0x58, 0x00, 0x01, 0x11, 0x11],
        per_chip_tuning C chip_counter,
        send C (TYPE_CMD OR GROUP_ALL OR CMD_WRITE) [0x00, 0xB9, 0x00, 0x00, 0x44, 0x80],
        send C (TYPE_CMD OR GROUP_ALL OR CMD_WRITE) [0x00, 0x54, 0x00, 0x00, 0x00, 0x02],
        send C (TYPE_CMD OR GROUP_ALL OR CMD_WRITE) [0x00, 0xB9, 0x00, 0x00, 0x44, 0x80],
        send C (TYPE_CMD OR GROUP_ALL OR CMD_WRITE) [0x00, 0x3C, 0x80, 0x00, 0x8D, 0xEE],
        send_hash_frequency C frequency,
        send C (TYPE_CMD OR GROUP_ALL OR CMD_WRITE) [0x00, 0x10, 0x00, 0x00, 0x1E, 0xB5]])) (\<lambda>_.
     (\<lambda>st. Some (Inr chip_counter, st)))))"

definition send_init :: "crc_functions \<Rightarrow> pynum \<Rightarrow> nat \<Rightarrow> int \<Rightarrow> nat paction" where
  "send_init C frequency expected difficulty =
     bindP (init_enumerate C expected) (\<lambda>chip_counter.
     if chip_counter = 0 then (\<lambda>st. Some (Inl NoAsicChipsFound, st))
     else init_configure C frequency difficulty chip_counter)"

section \<open>Notions of the specification\<close>

text \<open>
  ``Reverse the 8 bits within the byte'': bit \<open>j\<close> of the result is bit \<open>7 - j\<close> of \<open>v\<close>.
  This follows the words of the specification; \<open>reverse_bits\<close> above is the code.
\<close>

definition bit_reverse8 :: "int \<Rightarrow> int" where
  "bit_reverse8 v = horner_sum of_bool 2 (map (\<lambda>j. bit v (7 - j)) [0..<8])"

text \<open>What the code's \<open>reverse_bits\<close> is checked against, byte by byte.\<close>

definition reverse_bits_agrees :: "int \<Rightarrow> bool" where
  "reverse_bits_agrees b =
     (reverse_bits b = Inr (bit_reverse8 b) \<and> 0 \<le> bit_reverse8 b \<and> bit_reverse8 b \<le> 255
      \<and> reverse_bits (bit_reverse8 b) = Inr b)"

text \<open>A transport for running the driver: the port is open and nothing was sent yet.\<close>

definition fresh_port :: "(nat \<Rightarrow> rx_data) \<Rightarrow> hw" where
  "fresh_port script = \<lparr>ser_open = True, tx_log = [], rx_script = script, rx_pos = 0\<rparr>"

section \<open>The candidates of the PLL search\<close>

text \<open>
  What the loop body computes for one divider triple before it compares: \<open>None\<close> when the
  triple is skipped (\<open>postdiv1 < postdiv2\<close>, or the feedback divider is outside
  \<open>[0xA0, 0xEF]\<close>), else the feedback divider, the frequency and its deviation.
\<close>

definition candidate_deviation :: "pynum \<Rightarrow> int \<times> int \<times> int \<Rightarrow> error + (int \<times> rat \<times> rat) option" where
  "candidate_deviation target_freq c =
     (case c of (refdiv, postdiv1, postdiv2) \<Rightarrow>
        if postdiv1 \<ge> postdiv2 then
          bindE (temp_fb_divider target_freq refdiv postdiv1 postdiv2) (\<lambda>temp_fb.
          if 0xa0 \<le> temp_fb \<and> temp_fb \<le> 0xef then
            bindE (temp_freq temp_fb refdiv postdiv1 postdiv2) (\<lambda>tf.
            bindE (freq_diff target_freq tf) (\<lambda>fd. Inr (Some (temp_fb, tf, fd))))
          else Inr None)
        else Inr None)"

text \<open>The deviation of a triple that the filters let through.\<close>

definition deviation :: "pynum \<Rightarrow> int \<times> int \<times> int \<Rightarrow> rat option" where
  "deviation target_freq c =
     (case candidate_deviation target_freq c of
        Inr (Some (temp_fb, tf, fd)) \<Rightarrow> Some fd
      | _ \<Rightarrow> None)"

text \<open>
  The invariant of the search after the triples \<open>visited\<close>: either nothing was accepted
  and no visited triple deviates by less than 1.0, or the state holds a visited triple
  that is strictly better than all before it and at least as good as all after it.
\<close>

definition pll_inv :: "pynum \<Rightarrow> (int \<times> int \<times> int) list \<Rightarrow> pll_state \<Rightarrow> bool" where
  "pll_inv target_freq visited s =
     (if fb_divider s = 0 then
        min_difference s = 10 \<and>
        (\<forall>c\<in>set visited. \<forall>d. deviation target_freq c = Some d \<longrightarrow> \<not> d < 1)
      else
        (\<exists>pre post.
           visited = pre @ [(ref_divider s, post_divider1 s, post_divider2 s)] @ post
           \<and> candidate_deviation target_freq (ref_divider s, post_divider1 s, post_divider2 s)
               = Inr (Some (fb_divider s, newf s, min_difference s))
           \<and> min_difference s < 1
           \<and> (\<forall>c\<in>set pre. \<forall>d. deviation target_freq c = Some d \<longrightarrow> min_difference s < d)
           \<and> (\<forall>c\<in>set post. \<forall>d. deviation target_freq c = Some d \<longrightarrow> min_difference s \<le> d)))"

section \<open>The deviation of the specification\<close>

text \<open>
  The specification measures a divider triple \<open>(ref, pd1, pd2)\<close> by the deviation
  \<open>|target - 25 * fb / (ref * pd1 * pd2)|\<close>, where \<open>fb\<close> is
  \<open>round (pd1 * pd2 * target * ref / 25)\<close>, over the triples with \<open>ref\<close> in \<open>{1, 2}\<close>,
  \<open>pd1\<close> and \<open>pd2\<close> in \<open>[1, 7]\<close>, \<open>pd1 \<ge> pd2\<close> and \<open>fb\<close> in \<open>[0xA0, 0xEF]\<close>. The
  definitions of this section follow these words and not the loop: they are closed
  formulas in the target and the triple. The theorems compare them with the state that
  \<open>pll_search\<close> ends in.
\<close>

text \<open>The target as the float that Python converts it to when it meets a float.\<close>

definition target_value :: "pynum \<Rightarrow> rat" where
  "target_value target = (case target of PyInt n \<Rightarrow> rnd64 (of_int n) | PyFloat t \<Rightarrow> t)"

text \<open>The target as a number.\<close>

definition exact_target :: "pynum \<Rightarrow> rat" where
  "exact_target target = (case target of PyInt n \<Rightarrow> of_int n | PyFloat t \<Rightarrow> t)"

text \<open>
  \<open>fb = round (pd1 * pd2 * target * ref / 25)\<close>: the products and the quotient are taken
  from left to right, each float result rounded to binary64 (for an int target the
  product is an exact int, converted for the division); \<open>round\<close> goes to the nearest
  integer, a tie to the even one.
\<close>

definition rounded_feedback :: "pynum \<Rightarrow> int \<times> int \<times> int \<Rightarrow> int" where
  "rounded_feedback target c =
     (case c of (ref, pd1, pd2) \<Rightarrow>
        (case target of
           PyInt n \<Rightarrow> round_half_even (rnd64 (rnd64 (of_int (pd1 * pd2 * n * ref)) / 25))
         | PyFloat t \<Rightarrow>
             round_half_even (rnd64 (rnd64 (rnd64 (of_int (pd1 * pd2) * t) * of_int ref) / 25))))"

text \<open>The candidates of the specification.\<close>

definition candidate :: "pynum \<Rightarrow> int \<times> int \<times> int \<Rightarrow> bool" where
  "candidate target c =
     (case c of (ref, pd1, pd2) \<Rightarrow>
        ref \<in> {1, 2} \<and> 1 \<le> pd2 \<and> pd2 \<le> pd1 \<and> pd1 \<le> 7
        \<and> 0xA0 \<le> rounded_feedback target c \<and> rounded_feedback target c \<le> 0xEF)"

text \<open>
  The deviation \<open>|target - 25 * fb / (ref * pd1 * pd2)|\<close> in float arithmetic: the quotient
  is rounded to binary64, and so is the difference.
\<close>

definition float_deviation :: "pynum \<Rightarrow> int \<times> int \<times> int \<Rightarrow> rat" where
  "float_deviation target c =
     (case c of (ref, pd1, pd2) \<Rightarrow>
        \<bar>rnd64 (target_value target
                 - rnd64 (25 * of_int (rounded_feedback target c) / of_int (ref * pd1 * pd2)))\<bar>)"

text \<open>The same deviation as a number: nothing is rounded but \<open>fb\<close>.\<close>

definition exact_deviation :: "pynum \<Rightarrow> int \<times> int \<times> int \<Rightarrow> rat" where
  "exact_deviation target c =
     (case c of (ref, pd1, pd2) \<Rightarrow>
        \<bar>exact_target target
          - 25 * of_int (rounded_feedback target c) / of_int (ref * pd1 * pd2)\<bar>)"

text \<open>
  The float \<open>47.810374149659864\<close>. It lies so close to the middle of \<open>25 * 187 / 98\<close>
  and \<open>25 * 161 / 84\<close> that both differences round to the same float.
\<close>

definition near_tie_target :: rat where
  "near_tie_target = 3364355987575815 / 70368744177664"

section \<open>The frames of the initialisation sequence\<close>

text \<open>
  The shape of a Command frame: sync bytes, header, length, payload, \<open>crc5\<close> of
  \<open>[header, length] @ payload\<close>.
\<close>

definition cmd_frame :: "crc_functions \<Rightarrow> int \<Rightarrow> int list \<Rightarrow> int list" where
  "cmd_frame C header data =
     [0x55, 0xAA, header, int (length data) + 3] @ data
       @ [crc5 C ([header, int (length data) + 3] @ data)]"

text \<open>An action that, on an open port, sends exactly these frames and raises nothing.\<close>

definition emits :: "unit action \<Rightarrow> int list list \<Rightarrow> bool" where
  "emits a frames =
     (\<forall>st. ser_open st \<longrightarrow> a st = (Inr (), st\<lparr>tx_log := tx_log st @ frames\<rparr>))"

text \<open>
  A receive script for running the driver: one chip answers the identify command (the
  reply holds the signature \<open>aa5513700000\<close>), then the callback returns \<open>None\<close>.
\<close>

definition one_chip :: "nat \<Rightarrow> rx_data" where
  "one_chip i =
     (if i = 0 then PyBytes [0xAA, 0x55, 0x13, 0x70, 0x00, 0x00, 0x00, 0x00, 0x00, 0x00, 0x06]
      else PyNone)"

text \<open>
  The frames of the initialisation sequence, step by step as the specification lists
  them: version mask three times, the raw reset frame and the broadcast read (before the
  replies are counted).
\<close>

definition enumerate_frames :: "crc_functions \<Rightarrow> int list list" where
  "enumerate_frames C =
     [cmd_frame C 0x51 [0x00, 0xA4, 0x90, 0x00, 0xFF, 0xFF],
      cmd_frame C 0x51 [0x00, 0xA4, 0x90, 0x00, 0xFF, 0xFF],
      cmd_frame C 0x51 [0x00, 0xA4, 0x90, 0x00, 0xFF, 0xFF],
      [0x55, 0xAA, 0x52, 0x05, 0x00, 0x00, 0x0A],
      cmd_frame C 0x52 [0x00, 0x00]]"

text \<open>The frequency step: one frame when the search found dividers, none otherwise.\<close>

definition frequency_frames :: "crc_functions \<Rightarrow> pll_state \<Rightarrow> int list list" where
  "frequency_frames C s =
     (if fb_divider s = 0 then []
      else case freq_payload s of Inl e \<Rightarrow> [] | Inr freqbuf \<Rightarrow> [cmd_frame C 0x51 freqbuf])"

text \<open>The five tuning writes to one chip address.\<close>

definition per_chip_frames :: "crc_functions \<Rightarrow> int \<Rightarrow> int list list" where
  "per_chip_frames C addr =
     [cmd_frame C 0x41 [addr, 0xA8, 0x00, 0x07, 0x01, 0xF0],
      cmd_frame C 0x41 [addr, 0x18, 0xF0, 0x00, 0xC1, 0x00],
      cmd_frame C 0x41 [addr, 0x3C, 0x80, 0x00, 0x8B, 0x00],
      cmd_frame C 0x41 [addr, 0x3C, 0x80, 0x00, 0x80, 0x0C],
      cmd_frame C 0x41 [addr, 0x3C, 0x80, 0x00, 0x82, 0xAA]]"

text \<open>
  Everything after the chip count is known: version mask, global configuration, chain
  inactive, one set-address per chip, global defaults, difficulty mask, ticket, per-chip
  tuning, miscellaneous writes, the frequency step and the final commit.
\<close>

definition configure_frames ::
    "crc_functions \<Rightarrow> nat \<Rightarrow> int list \<Rightarrow> int list list \<Rightarrow> int list list" where
  "configure_frames C chip_count difficulty_mask freq_frames =
     [cmd_frame C 0x51 [0x00, 0xA4, 0x90, 0x00, 0xFF, 0xFF],
      cmd_frame C 0x51 [0x00, 0xA8, 0x00, 0x07, 0x00, 0x00],
      cmd_frame C 0x51 [0x00, 0x18, 0xF0, 0x00, 0xC1, 0x00],
      cmd_frame C 0x53 [0x00, 0x00]]
     @ map (\<lambda>i. cmd_frame C 0x40 [int i * (256 div int chip_count), 0x00]) [0..<chip_count]
     @ [cmd_frame C 0x51 [0x00, 0x3C, 0x80, 0x00, 0x8B, 0x00],
        cmd_frame C 0x51 [0x00, 0x3C, 0x80, 0x00, 0x80, 0x0C],
        cmd_frame C 0x51 difficulty_mask,
        cmd_frame C 0x51 [0x00, 0x58, 0x00, 0x01, 0x11, 0x11]]
     @ concat (map (\<lambda>i. per_chip_frames C (int i * (256 div int chip_count))) [0..<chip_count])
     @ [cmd_frame C 0x51 [0x00, 0xB9, 0x00, 0x00, 0x44, 0x80],
        cmd_frame C 0x51 [0x00, 0x54, 0x00, 0x00, 0x00, 0x02],
        cmd_frame C 0x51 [0x00, 0xB9, 0x00, 0x00, 0x44, 0x80],
        cmd_frame C 0x51 [0x00, 0x3C, 0x80, 0x00, 0x8D, 0xEE]]
     @ freq_frames
     @ [cmd_frame C 0x51 [0x00, 0x10, 0x00, 0x00, 0x1E, 0xB5]]"


section \<open>Floats: facts about the rounding\<close>

lemma pow2_pos: "0 < pow2 e"
  by (simp add: pow2_def)

lemma pow2_nat: "pow2 (int n) = 2 ^ n"
  by (simp add: pow2_def)

lemma pow2_neg: "pow2 (- int n) = 1 / 2 ^ n"
  by (simp add: pow2_def power_int_minus_divide)

lemma pow2_add: "pow2 (a + b) = pow2 a * pow2 b"
  by (simp add: pow2_def power_int_add)

lemma pow2_mono: "a \<le> b \<Longrightarrow> pow2 a \<le> pow2 b"
  by (simp add: pow2_def power_int_increasing)

lemma pow2_less_cancel: "pow2 a < pow2 b \<Longrightarrow> a < b"
  using pow2_mono [of b a] by (cases "a < b") auto

lemma binade_lower:
  assumes "0 < x"
  shows "pow2 (binade x) \<le> x"
proof (cases "1 \<le> x")
  case True
  define n where "n = nat \<lfloor>x\<rfloor>"
  have n: "0 < n" "of_nat n \<le> x" using True by (simp_all add: n_def le_floor_iff)
  have fl: "0 < floorlog 2 n" using n by (simp add: floorlog_def)
  have "2 ^ (floorlog 2 n - 1) \<le> n" using floorlog_bounds [of n 2] n by simp
  then have "(of_nat (2 ^ (floorlog 2 n - 1)) :: rat) \<le> of_nat n"
    by (simp only: of_nat_le_iff)
  then have "(2::rat) ^ (floorlog 2 n - 1) \<le> of_nat n"
    by simp
  then have "(2::rat) ^ (floorlog 2 n - 1) \<le> x"
    using n(2) by (rule order_trans)
  moreover have "binade x = int (floorlog 2 n - 1)"
    using True fl by (simp add: binade_def n_def)
  ultimately show ?thesis by (simp only: pow2_nat)
next
  case False
  define m where "m = nat (\<lceil>1 / x\<rceil> - 1)"
  have x1: "1 < 1 / x" using False assms by simp
  then have c2: "2 \<le> \<lceil>1 / x\<rceil>" by (simp add: le_ceiling_iff)
  have m0: "0 < m" using c2 by (simp add: m_def)
  have "m < 2 ^ floorlog 2 m" using floorlog_bounds [of m 2] m0 by simp
  then have "int m < int (2 ^ floorlog 2 m)"
    by (simp only: of_nat_less_iff)
  moreover have "int m = \<lceil>1 / x\<rceil> - 1" using c2 unfolding m_def by linarith
  ultimately have "\<lceil>1 / x\<rceil> \<le> 2 ^ floorlog 2 m" by simp
  then have "1 / x \<le> of_int (2 ^ floorlog 2 m)"
    by (simp only: ceiling_le_iff)
  then have "1 / x \<le> 2 ^ floorlog 2 m" by simp
  then have "1 / 2 ^ floorlog 2 m \<le> x"
    using assms by (simp add: field_simps)
  moreover have "binade x = - int (floorlog 2 m)"
    using False by (simp add: binade_def m_def)
  ultimately show ?thesis by (simp only: pow2_neg)
qed

lemma round_half_even_of_int: "round_half_even (of_int m) = m"
  by (simp add: round_half_even_def)

lemma round_half_even_ge: "of_int m \<le> x \<Longrightarrow> m \<le> round_half_even x"
proof -
  assume "of_int m \<le> x"
  then have "m \<le> \<lfloor>x\<rfloor>" by (simp add: le_floor_iff)
  then show ?thesis by (simp add: round_half_even_def Let_def)
qed

lemma round_half_even_le: "x \<le> of_int m \<Longrightarrow> round_half_even x \<le> m"
proof -
  assume a: "x \<le> of_int m"
  show ?thesis
  proof (cases "of_int \<lfloor>x\<rfloor> < x")
    case False
    have "of_int \<lfloor>x\<rfloor> \<le> x" by (rule of_int_floor_le)
    with False have eq: "x = of_int \<lfloor>x\<rfloor>" by linarith
    have "of_int \<lfloor>x\<rfloor> \<le> (of_int m :: rat)" using a eq by simp
    then have "\<lfloor>x\<rfloor> \<le> m" by (simp only: of_int_le_iff)
    moreover have "round_half_even x = \<lfloor>x\<rfloor>"
      using round_half_even_of_int [of "\<lfloor>x\<rfloor>"] eq by simp
    ultimately show ?thesis by simp
  next
    case True
    then have "of_int \<lfloor>x\<rfloor> < (of_int m :: rat)" using a by simp
    then have "\<lfloor>x\<rfloor> < m" by (simp only: of_int_less_iff)
    moreover have "round_half_even x \<le> \<lfloor>x\<rfloor> + 1"
      by (simp add: round_half_even_def Let_def)
    ultimately show ?thesis by linarith
  qed
qed


lemma rnd64_pos:
  "0 < x \<Longrightarrow> rnd64 x =
     of_int (round_half_even (x / pow2 (max (binade x) (- 1022) - 52)))
       * pow2 (max (binade x) (- 1022) - 52)"
  by (simp add: rnd64_def Let_def)

lemma rnd64_minus: "rnd64 (- x) = - rnd64 x"
  by (simp add: rnd64_def Let_def sgn_minus)

text \<open>Every multiple of \<open>2 ^ - j\<close> is on the grid that \<open>rnd64\<close> rounds \<open>x\<close> to.\<close>

lemma dyadic_on_grid:
  assumes x: "0 < x" "x < pow2 (53 - int j)" and j: "j \<le> 1074"
  shows "\<exists>K. of_int m / 2 ^ j = of_int K * pow2 (max (binade x) (- 1022) - 52)"
proof -
  define e where "e = max (binade x) (- 1022)"
  have "pow2 (binade x) < pow2 (53 - int j)"
    using binade_lower [OF x(1)] x(2) by (rule le_less_trans)
  then have "binade x < 53 - int j" by (rule pow2_less_cancel)
  then have e: "e \<le> 52 - int j" using j by (simp add: e_def)
  define k where "k = nat (52 - int j - e)"
  have "pow2 (- int j) = pow2 (int k) * pow2 (e - 52)"
    using e by (simp add: k_def pow2_add [symmetric])
  then have "1 / 2 ^ j = 2 ^ k * pow2 (e - 52)"
    by (simp only: pow2_neg pow2_nat)
  then have "of_int m / 2 ^ j = of_int (m * 2 ^ k) * pow2 (e - 52)"
    by (simp add: field_simps)
  then show ?thesis unfolding e_def by blast
qed

lemma rnd64_ge_dyadic:
  assumes x: "0 < x" "x < pow2 (53 - int j)" and j: "j \<le> 1074"
    and a: "of_int m / 2 ^ j \<le> x"
  shows "of_int m / 2 ^ j \<le> rnd64 x"
proof -
  define u where "u = pow2 (max (binade x) (- 1022) - 52)"
  have u: "0 < u" by (simp add: u_def pow2_pos)
  obtain K where K: "of_int m / 2 ^ j = of_int K * u"
    using dyadic_on_grid [OF x j] unfolding u_def by blast
  have "of_int K \<le> x / u" using a K u by (simp add: field_simps)
  then have "K \<le> round_half_even (x / u)" by (rule round_half_even_ge)
  then have "(of_int K :: rat) \<le> of_int (round_half_even (x / u))" by (simp only: of_int_le_iff)
  then have "of_int K * u \<le> of_int (round_half_even (x / u)) * u"
    using u by (simp only: mult_le_cancel_right_pos)
  then show ?thesis by (simp only: K rnd64_pos [OF x(1)] u_def)
qed

lemma rnd64_le_dyadic:
  assumes x: "0 < x" "x < pow2 (53 - int j)" and j: "j \<le> 1074"
    and a: "x \<le> of_int m / 2 ^ j"
  shows "rnd64 x \<le> of_int m / 2 ^ j"
proof -
  define u where "u = pow2 (max (binade x) (- 1022) - 52)"
  have u: "0 < u" by (simp add: u_def pow2_pos)
  obtain K where K: "of_int m / 2 ^ j = of_int K * u"
    using dyadic_on_grid [OF x j] unfolding u_def by blast
  have "x / u \<le> of_int K" using a K u by (simp add: field_simps)
  then have "round_half_even (x / u) \<le> K" by (rule round_half_even_le)
  then have "(of_int (round_half_even (x / u)) :: rat) \<le> of_int K" by (simp only: of_int_le_iff)
  then have "of_int (round_half_even (x / u)) * u \<le> of_int K * u"
    using u by (simp only: mult_le_cancel_right_pos)
  then show ?thesis by (simp only: K rnd64_pos [OF x(1)] u_def)
qed

text \<open>Integers of magnitude below \<open>2 ^ 53\<close> are binary64 values.\<close>

lemma rnd64_of_int:
  assumes "\<bar>k\<bar> < 2 ^ 53"
  shows "rnd64 (of_int k) = of_int k"
proof -
  have pos: "rnd64 (of_int n) = of_int n" if n: "0 < n" "n < 2 ^ 53" for n :: int
  proof -
    have "(of_int n :: rat) < of_int (2 ^ 53)" using n(2) by (simp only: of_int_less_iff)
    then have x2: "(of_int n :: rat) < pow2 (53 - int 0)" by (simp add: pow2_def)
    have x1: "0 < (of_int n :: rat)" using n(1) by simp
    note x = x1 x2
    have "of_int n / 2 ^ 0 \<le> rnd64 (of_int n)"
      by (rule rnd64_ge_dyadic [OF x]) simp_all
    moreover have "rnd64 (of_int n) \<le> of_int n / 2 ^ 0"
      by (rule rnd64_le_dyadic [OF x]) simp_all
    ultimately show ?thesis by simp
  qed
  consider "k = 0" | "0 < k" | "k < 0" by linarith
  then show ?thesis
  proof cases
    case 1
    then show ?thesis by (simp add: rnd64_def)
  next
    case 2
    then show ?thesis using assms by (intro pos) simp_all
  next
    case 3
    then have "rnd64 (of_int (- k)) = of_int (- k)" using assms by (intro pos) simp_all
    then show ?thesis by (simp add: rnd64_minus)
  qed
qed

lemma fl_of_int: "\<bar>k\<bar> < 2 ^ 53 \<Longrightarrow> fl (of_int k) = Inr (of_int k)"
proof -
  assume k: "\<bar>k\<bar> < 2 ^ 53"
  have "\<bar>k\<bar> < 2 ^ 1024" using k by (rule less_trans) simp
  then have "(of_int \<bar>k\<bar> :: rat) < of_int (2 ^ 1024)" by (simp only: of_int_less_iff)
  then have "\<bar>of_int k :: rat\<bar> < pow2 1024" by (simp add: pow2_def)
  then show ?thesis using k by (simp add: fl_def rnd64_of_int)
qed


lemma fl_numeral: "numeral w < (2 ^ 53 :: int) \<Longrightarrow> fl (numeral w) = Inr (numeral w)"
  using fl_of_int [of "numeral w"] by simp

lemma fl_zero: "fl 0 = Inr 0"
  using fl_of_int [of 0] by simp

lemma round_half_even_numeral: "round_half_even (numeral w) = numeral w"
  using round_half_even_of_int [of "numeral w"] by simp

lemma round_half_even_zero: "round_half_even 0 = 0"
  using round_half_even_of_int [of 0] by simp

lemmas pll_eval =
  pll_step_def temp_fb_divider_def temp_freq_def freq_diff_def to_float_def bindE_def
  fl_numeral fl_zero round_half_even_numeral round_half_even_zero max_diff_def

section \<open>The PLL search at 400 MHz\<close>

lemma pll_search_float_400:
  "pll_search (PyFloat 400) =
     Inr \<lparr>fb_divider = 224, post_divider1 = 7, post_divider2 = 1, ref_divider = 2,
          min_difference = 0, newf = 400\<rparr>"
  by (simp add: pll_search_def pll_candidates_def pll_init_def pll_eval)

text \<open>
  Claim C8. For the target 400.0 the search ends with a divider set (\<open>fb_divider\<close> is not
  0, so the function does not take its ``failed to find PLL settings'' exit): feedback
  224, reference 2, post dividers 7 and 1. The feedback divider lies in \<open>[0xA0, 0xEF]\<close>
  and the frequency \<open>25 * fb / (ref * pd1 * pd2)\<close> is within 1.0 of 400.
\<close>

theorem pll_search_400:
  "pll_search (PyFloat 400) =
     Inr \<lparr>fb_divider = 224, post_divider1 = 7, post_divider2 = 1, ref_divider = 2,
          min_difference = 0, newf = 400\<rparr>
   \<and> (\<exists>s. pll_search (PyFloat 400) = Inr s \<and> fb_divider s \<noteq> 0
          \<and> 0xA0 \<le> fb_divider s \<and> fb_divider s \<le> 0xEF
          \<and> \<bar>400 - 25 * rat_of_int (fb_divider s)
                   / rat_of_int (ref_divider s * post_divider1 s * post_divider2 s)\<bar> < 1)"
proof -
  have found: "pll_search (PyFloat 400) =
     Inr \<lparr>fb_divider = 224, post_divider1 = 7, post_divider2 = 1, ref_divider = 2,
          min_difference = 0, newf = 400\<rparr>"
    by (simp add: pll_search_def pll_candidates_def pll_init_def pll_eval)
  have achieved: "25 * rat_of_int 224 / rat_of_int (2 * 7 * 1) = 400"
    by simp
  then have "\<bar>400 - 25 * rat_of_int 224 / rat_of_int (2 * 7 * 1)\<bar> < 1"
    by simp
  then show ?thesis
    unfolding found by simp
qed

section \<open>The difficulty mask\<close>

lemma largest_power_of_two_small: "n \<le> 1 \<Longrightarrow> largest_power_of_two n = Some 1"
  by (simp add: largest_power_of_two_def power_of_two_loop.simps)

lemma reverse_bits_zero: "reverse_bits 0 = Inr 0"
  by code_simp

text \<open>
  Claim C10. For every difficulty at most 1, zero and negative values included, the
  helper returns 1, so the mask value is 0 and \<open>get_difficulty_mask\<close> returns, without an
  error, exactly \<open>[0x00, 0x14, 0x00, 0x00, 0x00, 0x00]\<close>.
\<close>

theorem get_difficulty_mask_at_most_one:
  assumes "difficulty \<le> 1"
  shows "largest_power_of_two difficulty = Some 1
       \<and> get_difficulty_mask difficulty = Some (Inr [0x00, 0x14, 0x00, 0x00, 0x00, 0x00])"
  using assms by (simp add: get_difficulty_mask_def largest_power_of_two_small reverse_bits_zero)

theorem get_difficulty_mask_at_most_one_witness:
  "get_difficulty_mask 1 = Some (Inr [0x00, 0x14, 0x00, 0x00, 0x00, 0x00])
   \<and> get_difficulty_mask 0 = Some (Inr [0x00, 0x14, 0x00, 0x00, 0x00, 0x00])
   \<and> get_difficulty_mask (- 5) = Some (Inr [0x00, 0x14, 0x00, 0x00, 0x00, 0x00])"
  using get_difficulty_mask_at_most_one [of 1] get_difficulty_mask_at_most_one [of 0]
    get_difficulty_mask_at_most_one [of "- 5"]
  by simp

lemma reverse_bits_all_bytes: "list_all reverse_bits_agrees [0..255]"
  by code_simp

lemma reverse_bits_byte:
  assumes "0 \<le> b" "b \<le> 255"
  shows "reverse_bits_agrees b"
proof -
  have "b \<in> set [0..255]" using assms by simp
  then show ?thesis using reverse_bits_all_bytes by (simp only: list_all_iff)
qed

text \<open>
  Claim C9. For every byte value \<open>b\<close> in \<open>[0, 255]\<close>, \<open>reverse_bits b\<close> is again in
  \<open>[0, 255]\<close> and reversing it gives \<open>b\<close> back.
\<close>

theorem reverse_bits_involution:
  assumes "0 \<le> b" "b \<le> 255"
  shows "\<exists>r. reverse_bits b = Inr r \<and> 0 \<le> r \<and> r \<le> 255 \<and> reverse_bits r = Inr b"
  using reverse_bits_byte [OF assms] by (auto simp add: reverse_bits_agrees_def)

theorem reverse_bits_involution_witness:
  "reverse_bits 0x0F = Inr 0xF0 \<and> reverse_bits 0xF0 = Inr 0x0F"
proof -
  have a: "reverse_bits 0x0F = Inr 0xF0" by code_simp
  obtain r where "reverse_bits 0x0F = Inr r" "reverse_bits r = Inr 0x0F"
    using reverse_bits_involution [of "0x0F"] by auto
  with a show ?thesis by simp
qed

text \<open>The specification's notion does reverse the bits.\<close>

lemma bit_reverse8_bit:
  "bit (bit_reverse8 v) j \<longleftrightarrow> j < 8 \<and> bit v (7 - j)"
  by (auto simp add: bit_reverse8_def bit_horner_sum_bit_iff)

lemma power_of_two_loop_result:
  assumes "0 < p" "p \<le> n"
  shows "\<exists>j. power_of_two_loop p n = Some (p * 2 ^ j) \<and> p * 2 ^ j \<le> n \<and> n < p * 2 ^ (j + 1)"
  using assms
proof (induction "nat (n - p)" arbitrary: p rule: less_induct)
  case less
  show ?case
  proof (cases "p * 2 \<le> n")
    case True
    have "nat (n - p * 2) < nat (n - p)" using less.prems True by simp
    then obtain j where j: "power_of_two_loop (p * 2) n = Some (p * 2 * 2 ^ j)"
        "p * 2 * 2 ^ j \<le> n" "n < p * 2 * 2 ^ (j + 1)"
      using less.hyps [of "p * 2"] less.prems True by auto
    have "power_of_two_loop p n = power_of_two_loop (p * 2) n"
      using True by (subst power_of_two_loop.simps) simp
    then have "power_of_two_loop p n = Some (p * 2 ^ (j + 1)) \<and> p * 2 ^ (j + 1) \<le> n
        \<and> n < p * 2 ^ (j + 1 + 1)"
      using j by (simp add: mult.assoc)
    then show ?thesis by blast
  next
    case False
    then have "power_of_two_loop p n = Some (p * 2 ^ 0) \<and> p * 2 ^ 0 \<le> n \<and> n < p * 2 ^ (0 + 1)"
      using less.prems by (subst power_of_two_loop.simps) simp
    then show ?thesis by blast
  qed
qed

lemma largest_power_of_two_result:
  assumes "1 \<le> n"
  shows "\<exists>k. largest_power_of_two n = Some (2 ^ k) \<and> 2 ^ k \<le> n \<and> n < 2 ^ (k + 1)"
  using power_of_two_loop_result [of 1 n] assms by (simp add: largest_power_of_two_def)

lemma reverse_bits_masked: "reverse_bits (x AND 0xFF) = Inr (bit_reverse8 (x AND 0xFF))"
proof -
  have "x AND 255 \<le> 255" by (rule AND_upper2) simp
  moreover have "0 \<le> x AND 255" by simp
  ultimately show ?thesis using reverse_bits_byte [of "x AND 255"]
    by (simp add: reverse_bits_agrees_def)
qed

lemma mask_loop_result:
  "mask_loop [0, 1, 2, 3] m [0x00, 0x14, 0x00, 0x00, 0x00, 0xFF] =
     Inr [0x00, 0x14,
          bit_reverse8 (drop_bit 24 m AND 0xFF), bit_reverse8 (drop_bit 16 m AND 0xFF),
          bit_reverse8 (drop_bit 8 m AND 0xFF), bit_reverse8 (m AND 0xFF)]"
  using reverse_bits_masked [of m]
  by (simp add: reverse_bits_masked Let_def numeral_eq_Suc)


text \<open>
  Claim C6. For every difficulty of at least 1, \<open>get_difficulty_mask\<close> takes the largest
  power of two \<open>2 ^ k\<close> not above the difficulty, the mask \<open>2 ^ k - 1\<close>, its four low
  bytes least significant first, reverses the bits of each, and stores them in template
  positions 5, 4, 3, 2 in that order; positions 0 and 1 keep \<open>0x00\<close> and \<open>0x14\<close>. For
  difficulty 16 the result is \<open>[0x00, 0x14, 0x00, 0x00, 0x00, 0xF0]\<close>.
\<close>

theorem get_difficulty_mask_encoding:
  assumes "1 \<le> difficulty"
  shows "(\<exists>k. 2 ^ k \<le> difficulty \<and> difficulty < 2 ^ (k + 1)
            \<and> largest_power_of_two difficulty = Some (2 ^ k)
            \<and> get_difficulty_mask difficulty =
                Some (Inr [0x00, 0x14,
                           bit_reverse8 (drop_bit 24 (2 ^ k - 1) AND 0xFF),
                           bit_reverse8 (drop_bit 16 (2 ^ k - 1) AND 0xFF),
                           bit_reverse8 (drop_bit 8 (2 ^ k - 1) AND 0xFF),
                           bit_reverse8 ((2 ^ k - 1) AND 0xFF)]))
       \<and> get_difficulty_mask 16 = Some (Inr [0x00, 0x14, 0x00, 0x00, 0x00, 0xF0])"
proof
  obtain k where k: "largest_power_of_two difficulty = Some (2 ^ k)"
      "2 ^ k \<le> difficulty" "difficulty < 2 ^ (k + 1)"
    using largest_power_of_two_result [OF assms] by blast
  have "get_difficulty_mask difficulty =
          Some (Inr [0x00, 0x14,
                     bit_reverse8 (drop_bit 24 (2 ^ k - 1) AND 0xFF),
                     bit_reverse8 (drop_bit 16 (2 ^ k - 1) AND 0xFF),
                     bit_reverse8 (drop_bit 8 (2 ^ k - 1) AND 0xFF),
                     bit_reverse8 ((2 ^ k - 1) AND 0xFF)])"
    by (simp only: get_difficulty_mask_def k(1) option.case mask_loop_result)
  with k show "\<exists>k. 2 ^ k \<le> difficulty \<and> difficulty < 2 ^ (k + 1)
            \<and> largest_power_of_two difficulty = Some (2 ^ k)
            \<and> get_difficulty_mask difficulty =
                Some (Inr [0x00, 0x14,
                           bit_reverse8 (drop_bit 24 (2 ^ k - 1) AND 0xFF),
                           bit_reverse8 (drop_bit 16 (2 ^ k - 1) AND 0xFF),
                           bit_reverse8 (drop_bit 8 (2 ^ k - 1) AND 0xFF),
                           bit_reverse8 ((2 ^ k - 1) AND 0xFF)])"
    by blast
  show "get_difficulty_mask 16 = Some (Inr [0x00, 0x14, 0x00, 0x00, 0x00, 0xF0])"
    by code_simp
qed

theorem get_difficulty_mask_encoding_witness:
  "get_difficulty_mask 1000 = Some (Inr [0x00, 0x14, 0x00, 0x00, 0x80, 0xFF])"
proof -
  obtain k :: nat where k: "2 ^ k \<le> (1000::int)" "(1000::int) < 2 ^ (k + 1)"
    and m: "get_difficulty_mask 1000 =
                Some (Inr [0x00, 0x14,
                           bit_reverse8 (drop_bit 24 (2 ^ k - 1) AND 0xFF),
                           bit_reverse8 (drop_bit 16 (2 ^ k - 1) AND 0xFF),
                           bit_reverse8 (drop_bit 8 (2 ^ k - 1) AND 0xFF),
                           bit_reverse8 ((2 ^ k - 1) AND 0xFF)])"
    using get_difficulty_mask_encoding [of 1000] by auto
  have "(2::int) ^ k < 2 ^ 10" using k(1) by simp
  then have "k < 10" by (simp only: power_strict_increasing_iff [of 2] one_less_numeral_iff semiring_norm)
  moreover have "(2::int) ^ 9 < 2 ^ (k + 1)" using k(2) by simp
  then have "9 < k + 1" by (simp only: power_strict_increasing_iff [of 2] one_less_numeral_iff semiring_norm)
  ultimately have "k = 9" by simp
  have v: "bit_reverse8 (drop_bit 24 (2 ^ 9 - 1) AND 0xFF) = 0"
    "bit_reverse8 (drop_bit 16 (2 ^ 9 - 1) AND 0xFF) = 0"
    "bit_reverse8 (drop_bit 8 (2 ^ 9 - 1) AND 0xFF) = 0x80"
    "bit_reverse8 ((2 ^ 9 - 1) AND 0xFF) = 0xFF"
    by code_simp+
  show ?thesis using m v by (simp only: \<open>k = 9\<close>)
qed

section \<open>Packet framing\<close>

lemma replicate_frame_cmd:
  "replicate (n + 5) (x::int) = x # x # x # x # replicate n x @ [x]"
  by (simp add: numeral_eq_Suc replicate_append_same)

lemma replicate_frame_job:
  "replicate (n + 6) (x::int) = x # x # x # x # replicate n x @ [x, x]"
proof -
  have "replicate (n + 6) x = replicate (Suc (Suc (Suc (Suc (n + 2))))) x"
    by (simp add: numeral_eq_Suc)
  also have "\<dots> = x # x # x # x # replicate n x @ replicate 2 x"
    by (simp only: replicate_Suc replicate_add)
  also have "replicate 2 x = [x, x]"
    by (simp add: numeral_eq_Suc)
  finally show ?thesis .
qed

lemma update_head4:
  "(a # b # c # d # xs)[2 := v] = a # b # v # d # xs"
  "(a # b # c # d # xs)[3 := v] = a # b # c # v # xs"
  "(a # b # c # d # xs)[4 + n := v] = a # b # c # d # xs[n := v]"
  "(a # b # c # d # xs)[5 + n := v] = a # b # c # d # xs[Suc n := v]"
  "take 4 (a # b # c # d # xs) = [a, b, c, d]"
  "drop (4 + n) (a # b # c # d # xs) = drop n xs"
  "drop 2 (a # b # c # d # xs) = c # d # xs"
  by (simp_all add: numeral_eq_Suc)

lemma is_byte_mask: "is_byte (x AND 0xFF)"
proof -
  have "x AND 255 \<le> 255" by (rule AND_upper2) simp
  then show ?thesis by (simp add: is_byte_def)
qed

lemma build_frame_cmd:
  assumes hb: "is_byte header" and db: "list_all is_byte data"
    and cmd: "header AND TYPE_JOB = 0" and len: "length data \<le> 252"
    and cb: "is_byte (crc5 C ([header, int (length data) + 3] @ data))"
  shows "build_frame C header data =
           Inr ([0x55, 0xAA, header, int (length data) + 3] @ data @
                [crc5 C ([header, int (length data) + 3] @ data)])"
proof -
  have lb: "is_byte (int (length data) + 3)" using len by (simp add: is_byte_def)
  have b55: "is_byte 0x55" "is_byte 0xAA" by (simp_all add: is_byte_def)
  have ne: "TYPE_CMD \<noteq> TYPE_JOB" by (simp add: TYPE_CMD_def TYPE_JOB_def)
  show ?thesis
    using hb db cmd lb cb b55 ne
    by (simp add: build_frame_def Let_def bindE_def bytearray_set_def bytearray_set_slice_def
        bytearray_slice_def replicate_frame_cmd update_head4 list_update_append)
qed

lemma build_frame_job:
  assumes hb: "is_byte header" and db: "list_all is_byte data"
    and job: "header AND TYPE_JOB \<noteq> 0" and len: "length data \<le> 251"
  shows "build_frame C header data =
           Inr ([0x55, 0xAA, header, int (length data) + 4] @ data @
                [drop_bit 8 (crc16_false C ([header, int (length data) + 4] @ data)) AND 0xFF,
                 crc16_false C ([header, int (length data) + 4] @ data) AND 0xFF])"
proof -
  have lb: "is_byte (int (length data) + 4)" using len by (simp add: is_byte_def)
  have b55: "is_byte 0x55" "is_byte 0xAA" by (simp_all add: is_byte_def)
  show ?thesis
    using hb db job lb b55 is_byte_mask
    by (simp add: build_frame_def Let_def bindE_def bytearray_set_def bytearray_set_slice_def
        bytearray_slice_def replicate_frame_job update_head4 list_update_append)
qed

lemma build_frame_too_long:
  assumes hb: "is_byte header"
    and len: "if header AND TYPE_JOB \<noteq> 0 then 251 < length data else 252 < length data"
  shows "build_frame C header data = Inl ValueError"
proof -
  have b55: "is_byte 0x55" "is_byte 0xAA" by (simp_all add: is_byte_def)
  have ne: "TYPE_CMD \<noteq> TYPE_JOB" by (simp add: TYPE_CMD_def TYPE_JOB_def)
  show ?thesis
    using hb len b55 ne
    by (simp add: build_frame_def Let_def bindE_def bytearray_set_def is_byte_def split: if_splits)
qed

lemma crc16_big_endian:
  assumes "0 \<le> c" "c < 65536"
  shows "256 * (drop_bit 8 c AND 0xFF) + (c AND 0xFF) = (c::int)"
proof -
  have m: "(255::int) = mask 8" by (simp add: mask_eq_exp_minus_1)
  have lo: "c AND 0xFF = c mod 256" by (simp only: m flip: take_bit_eq_mask) (simp add: take_bit_eq_mod)
  have "drop_bit 8 c AND 0xFF = (c div 256) mod 256"
    by (simp only: m flip: take_bit_eq_mask) (simp add: take_bit_eq_mod drop_bit_eq_div)
  also have "\<dots> = c div 256" using assms by simp
  finally show ?thesis using lo by simp
qed


lemma send_frame:
  "build_frame C header data = Inr frame \<Longrightarrow> ser_open st \<Longrightarrow>
     send C header data st = (Inr (), st\<lparr>tx_log := tx_log st @ [frame]\<rparr>)"
  by (simp add: send_def serial_tx_func_def)

lemma send_raises:
  "build_frame C header data = Inl e \<Longrightarrow> send C header data st = (Inl e, st)"
  by (simp add: send_def)

text \<open>
  Claim C1, as amended. For every header byte and every payload of bytes whose length
  field still fits in a byte (at most 251 payload bytes for a Job frame, where the class
  bit \<open>TYPE_JOB\<close> of the header is set, at most 252 for a Command frame), with the port open
  and \<open>crc5\<close> returning a byte, \<open>send\<close> transmits exactly
  \<open>[0x55, 0xAA, header, length] @ payload @ checksum\<close>: for a Job frame the length field is
  \<open>len + 4\<close>, the frame has \<open>len + 6\<close> bytes and the checksum is \<open>crc16_false\<close> of
  \<open>[header, length] @ payload\<close>, high byte first; for a Command frame the length field is
  \<open>len + 3\<close>, the frame has \<open>len + 5\<close> bytes and the checksum is the one byte \<open>crc5\<close> of
  \<open>[header, length] @ payload\<close>. The checksum input holds neither the two sync bytes nor
  the checksum. For a longer payload \<open>send\<close> raises \<open>ValueError\<close> and transmits nothing.
\<close>

theorem send_frame_layout:
  assumes "is_byte header" and "list_all is_byte data" and "ser_open st"
    and "\<And>bs. is_byte (crc5 C bs)"
  shows
    "(header AND TYPE_JOB \<noteq> 0 \<and> length data \<le> 251 \<longrightarrow>
        (let body = [header, int (length data) + 4] @ data;
             c = crc16_false C body;
             frame = [0x55, 0xAA] @ body @ [drop_bit 8 c AND 0xFF, c AND 0xFF]
         in send C header data st = (Inr (), st\<lparr>tx_log := tx_log st @ [frame]\<rparr>)
            \<and> length frame = length data + 6
            \<and> frame ! 3 = int (length data) + 4
            \<and> (0 \<le> c \<and> c < 65536 \<longrightarrow> 256 * (drop_bit 8 c AND 0xFF) + (c AND 0xFF) = c)))
     \<and> (header AND TYPE_JOB = 0 \<and> length data \<le> 252 \<longrightarrow>
        (let body = [header, int (length data) + 3] @ data;
             frame = [0x55, 0xAA] @ body @ [crc5 C body]
         in send C header data st = (Inr (), st\<lparr>tx_log := tx_log st @ [frame]\<rparr>)
            \<and> length frame = length data + 5
            \<and> frame ! 3 = int (length data) + 3))
     \<and> ((if header AND TYPE_JOB \<noteq> 0 then 251 < length data else 252 < length data) \<longrightarrow>
        send C header data st = (Inl ValueError, st))"
proof (intro conjI impI)
  assume a: "header AND TYPE_JOB \<noteq> 0 \<and> length data \<le> 251"
  have "build_frame C header data =
           Inr ([0x55, 0xAA, header, int (length data) + 4] @ data @
                [drop_bit 8 (crc16_false C ([header, int (length data) + 4] @ data)) AND 0xFF,
                 crc16_false C ([header, int (length data) + 4] @ data) AND 0xFF])"
    using assms(1,2) a by (intro build_frame_job) simp_all
  from send_frame [OF this assms(3)]
  show "let body = [header, int (length data) + 4] @ data;
             c = crc16_false C body;
             frame = [0x55, 0xAA] @ body @ [drop_bit 8 c AND 0xFF, c AND 0xFF]
         in send C header data st = (Inr (), st\<lparr>tx_log := tx_log st @ [frame]\<rparr>)
            \<and> length frame = length data + 6
            \<and> frame ! 3 = int (length data) + 4
            \<and> (0 \<le> c \<and> c < 65536 \<longrightarrow> 256 * (drop_bit 8 c AND 0xFF) + (c AND 0xFF) = c)"
    by (simp add: Let_def crc16_big_endian)
next
  assume a: "header AND TYPE_JOB = 0 \<and> length data \<le> 252"
  have "build_frame C header data =
           Inr ([0x55, 0xAA, header, int (length data) + 3] @ data @
                [crc5 C ([header, int (length data) + 3] @ data)])"
    using assms(1,2,4) a by (intro build_frame_cmd) simp_all
  from send_frame [OF this assms(3)]
  show "let body = [header, int (length data) + 3] @ data;
             frame = [0x55, 0xAA] @ body @ [crc5 C body]
         in send C header data st = (Inr (), st\<lparr>tx_log := tx_log st @ [frame]\<rparr>)
            \<and> length frame = length data + 5
            \<and> frame ! 3 = int (length data) + 3"
    by (simp add: Let_def)
next
  assume "if header AND TYPE_JOB \<noteq> 0 then 251 < length data else 252 < length data"
  then have "build_frame C header data = Inl ValueError"
    using assms(1) by (intro build_frame_too_long)
  then show "send C header data st = (Inl ValueError, st)"
    by (rule send_raises)
qed

theorem send_frame_layout_witness:
  "send zero_crc 0x51 [0xA4, 0x90] (fresh_port (\<lambda>i. PyNone)) =
     (Inr (), (fresh_port (\<lambda>i. PyNone))\<lparr>tx_log := [[0x55, 0xAA, 0x51, 5, 0xA4, 0x90, 0]]\<rparr>)
   \<and> send zero_crc 0x21 [1, 2, 3] (fresh_port (\<lambda>i. PyNone)) =
     (Inr (), (fresh_port (\<lambda>i. PyNone))\<lparr>tx_log := [[0x55, 0xAA, 0x21, 7, 1, 2, 3, 0, 0]]\<rparr>)
   \<and> send zero_crc 0x51 (replicate 253 0) (fresh_port (\<lambda>i. PyNone)) =
     (Inl ValueError, fresh_port (\<lambda>i. PyNone))"
  using send_frame_layout [of "0x51" "[0xA4, 0x90]" "fresh_port (\<lambda>i. PyNone)" zero_crc]
    send_frame_layout [of "0x21" "[1, 2, 3]" "fresh_port (\<lambda>i. PyNone)" zero_crc]
    send_frame_layout [of "0x51" "replicate 253 0" "fresh_port (\<lambda>i. PyNone)" zero_crc]
  by (simp add: is_byte_def zero_crc_def fresh_port_def TYPE_JOB_def Let_def list_all_iff)

text \<open>
  Claim C1 as stated, for every payload, fails: with the header \<open>0x51\<close> of a Command
  frame and a payload of 253 bytes, \<^verbatim>\<open>buf[3] = data_len + 3\<close> stores 256 in a bytearray.
\<close>

theorem send_overlong_payload_counterexample:
  "is_byte 0x51 \<and> list_all is_byte (replicate 253 0)
   \<and> build_frame zero_crc 0x51 (replicate 253 0) = Inl ValueError
   \<and> send zero_crc 0x51 (replicate 253 0) (fresh_port (\<lambda>i. PyNone)) =
       (Inl ValueError, fresh_port (\<lambda>i. PyNone))"
  by (simp add: is_byte_def list_all_iff build_frame_def Let_def bindE_def bytearray_set_def
      send_def TYPE_JOB_def TYPE_CMD_def)

section \<open>Floats: one rounding, exactly and up to its error\<close>

lemma binade_upper:
  assumes "0 < x"
  shows "x < pow2 (binade x + 1)"
proof (cases "1 \<le> x")
  case True
  define n where "n = nat \<lfloor>x\<rfloor>"
  have n: "0 < n" using True by (simp add: n_def le_floor_iff)
  have fl: "0 < floorlog 2 n" using n by (simp add: floorlog_def)
  have "n < 2 ^ floorlog 2 n" using floorlog_bounds [of n 2] n by simp
  then have "int n + 1 \<le> int (2 ^ floorlog 2 n)" by linarith
  moreover have "int n = \<lfloor>x\<rfloor>" using True by (simp add: n_def)
  ultimately have "\<lfloor>x\<rfloor> + 1 \<le> 2 ^ floorlog 2 n" by simp
  then have "(of_int (\<lfloor>x\<rfloor> + 1) :: rat) \<le> of_int (2 ^ floorlog 2 n)"
    by (simp only: of_int_le_iff)
  moreover have "x < of_int (\<lfloor>x\<rfloor> + 1)" by linarith
  ultimately have "x < 2 ^ floorlog 2 n" by simp
  moreover have "binade x + 1 = int (floorlog 2 n)"
    using True by (simp add: binade_def n_def)
  ultimately show ?thesis by (simp only: pow2_nat)
next
  case False
  define m where "m = nat (\<lceil>1 / x\<rceil> - 1)"
  have x1: "1 < 1 / x" using False assms by simp
  then have c2: "2 \<le> \<lceil>1 / x\<rceil>" by (simp add: le_ceiling_iff)
  have m0: "0 < m" using c2 by (simp add: m_def)
  have im: "int m = \<lceil>1 / x\<rceil> - 1" using c2 unfolding m_def by linarith
  have fl: "0 < floorlog 2 m" using m0 by (simp add: floorlog_def)
  have "2 ^ (floorlog 2 m - 1) \<le> m" using floorlog_bounds [of m 2] m0 by simp
  then have "int (2 ^ (floorlog 2 m - 1)) \<le> int m" by (simp only: of_nat_le_iff)
  then have "(of_int (int (2 ^ (floorlog 2 m - 1))) :: rat) \<le> of_int (int m)"
    by (simp only: of_int_le_iff)
  then have "(2::rat) ^ (floorlog 2 m - 1) \<le> of_int (int m)" by simp
  moreover have "(of_int (int m) :: rat) < 1 / x" unfolding im by linarith
  ultimately have "2 ^ (floorlog 2 m - 1) < 1 / x" by (rule le_less_trans)
  then have "x < 1 / 2 ^ (floorlog 2 m - 1)"
    using assms by (simp add: field_simps)
  moreover have "binade x + 1 = - int (floorlog 2 m - 1)"
    using False fl by (simp add: binade_def m_def)
  ultimately show ?thesis by (simp only: pow2_neg)
qed

lemma binade_unique:
  assumes "0 < x" and "pow2 e \<le> x" and "x < pow2 (e + 1)"
  shows "binade x = e"
proof -
  have "pow2 e < pow2 (binade x + 1)"
    using assms(2) binade_upper [OF assms(1)] by (rule le_less_trans)
  then have "e < binade x + 1" by (rule pow2_less_cancel)
  moreover have "pow2 (binade x) < pow2 (e + 1)"
    using binade_lower [OF assms(1)] assms(3) by (rule le_less_trans)
  then have "binade x < e + 1" by (rule pow2_less_cancel)
  ultimately show ?thesis by simp
qed

lemma round_half_even_near:
  assumes "\<bar>x - of_int m\<bar> < 1 / 2"
  shows "round_half_even x = m"
proof -
  have a: "of_int m - 1 / 2 < x" "x < of_int m + 1 / 2" using assms by linarith+
  show ?thesis
  proof (cases "of_int m \<le> x")
    case True
    then have f: "\<lfloor>x\<rfloor> = m" using a(2) by (intro floor_unique) simp_all
    then show ?thesis using a(2) by (simp add: round_half_even_def Let_def)
  next
    case False
    then have f: "\<lfloor>x\<rfloor> = m - 1" using a(1) by (intro floor_unique) simp_all
    then show ?thesis using a(1) by (simp add: round_half_even_def Let_def)
  qed
qed

text \<open>
  A certificate for one rounding: the binade \<open>e\<close> of \<open>x\<close> and the integer \<open>m\<close> nearest to
  \<open>x / 2 ^ (e - 52)\<close>.
\<close>

lemma rnd64_cert:
  assumes "0 < x" and "2 powi e \<le> x" and "x < 2 powi (e + 1)" and "- 1022 \<le> e"
    and "\<bar>x / 2 powi (e - 52) - of_int m\<bar> < 1 / 2"
  shows "rnd64 x = of_int m * 2 powi (e - 52)"
proof -
  have "binade x = e" using assms(1-3) by (intro binade_unique) (simp_all add: pow2_def)
  then have "max (binade x) (- 1022) = e" using assms(4) by simp
  then show ?thesis
    using assms(1,5) by (simp add: rnd64_pos round_half_even_near pow2_def)
qed

lemma fl_cert:
  assumes "0 < x" and "2 powi e \<le> x" and "x < 2 powi (e + 1)" and "- 1022 \<le> e"
    and "\<bar>x / 2 powi (e - 52) - of_int m\<bar> < 1 / 2"
    and "v = of_int m * 2 powi (e - 52)" and "\<bar>v\<bar> < 2 powi 1024"
  shows "fl x = Inr v"
proof -
  have "rnd64 x = v" using assms(1-5) unfolding assms(6) by (rule rnd64_cert)
  then show ?thesis using assms(7) by (simp add: fl_def pow2_def)
qed

lemma fl_minus: "fl x = Inr v \<Longrightarrow> fl (- x) = Inr (- v)"
  by (simp add: fl_def rnd64_minus Let_def split: if_splits)

lemma fl_InrD: "fl x = Inr r \<Longrightarrow> r = rnd64 x"
  by (simp add: fl_def Let_def split: if_splits)

text \<open>One rounding moves a number by at most \<open>2 ^ -53\<close> of its size, or \<open>2 ^ -1075\<close>.\<close>

lemma round_half_even_error: "\<bar>of_int (round_half_even x) - x\<bar> \<le> 1 / 2"
proof -
  have "of_int \<lfloor>x\<rfloor> \<le> x" "x < of_int \<lfloor>x\<rfloor> + 1" by linarith+
  then show ?thesis
    by (auto simp add: round_half_even_def Let_def abs_le_iff)
qed

lemma pow2_minus_one: "pow2 (e - 1) = pow2 e / 2"
  using pow2_add [of e "- 1"] by (simp add: pow2_def)

lemma rnd64_error_pos:
  assumes "0 < x"
  shows "\<bar>rnd64 x - x\<bar> \<le> x / 2 ^ 53 + pow2 (- 1075)"
proof -
  define e where "e = max (binade x) (- 1022)"
  define u where "u = pow2 (e - 52)"
  have u: "0 < u" by (simp add: u_def pow2_pos)
  have r: "rnd64 x = of_int (round_half_even (x / u)) * u"
    using assms by (simp add: rnd64_pos e_def u_def)
  have "rnd64 x - x = (of_int (round_half_even (x / u)) - x / u) * u"
    using u by (simp add: r field_simps)
  then have "\<bar>rnd64 x - x\<bar> = \<bar>of_int (round_half_even (x / u)) - x / u\<bar> * u"
    using u by (simp add: abs_mult)
  also have "\<dots> \<le> 1 / 2 * u"
    using round_half_even_error [of "x / u"] u by (intro mult_right_mono) simp_all
  finally have err: "\<bar>rnd64 x - x\<bar> \<le> u / 2" by simp
  show ?thesis
  proof (cases "- 1022 \<le> binade x")
    case True
    then have "e = binade x" by (simp add: e_def)
    then have "u = pow2 (binade x) * pow2 (- 52)"
      using pow2_add [of "binade x" "- 52"] by (simp add: u_def)
    also have "\<dots> \<le> x * pow2 (- 52)"
      using binade_lower [OF assms] by (intro mult_right_mono) (simp_all add: less_imp_le [OF pow2_pos])
    finally have "u / 2 \<le> x / 2 ^ 53" by (simp add: pow2_def)
    moreover have "0 \<le> pow2 (- 1075)" by (rule less_imp_le [OF pow2_pos])
    ultimately show ?thesis using err by linarith
  next
    case False
    then have "e = - 1022" by (simp add: e_def)
    then have "u / 2 = pow2 (- 1075)"
      using pow2_minus_one [of "- 1074"] by (simp add: u_def)
    then show ?thesis using err assms by simp
  qed
qed

lemma rnd64_error: "\<bar>rnd64 x - x\<bar> \<le> \<bar>x\<bar> / 2 ^ 53 + pow2 (- 1075)"
proof -
  consider "x = 0" | "0 < x" | "x < 0" by linarith
  then show ?thesis
  proof cases
    case 1
    then show ?thesis by (simp add: rnd64_def less_imp_le [OF pow2_pos])
  next
    case 2
    then show ?thesis using rnd64_error_pos [of x] by simp
  next
    case 3
    then have "\<bar>rnd64 (- x) - (- x)\<bar> \<le> (- x) / 2 ^ 53 + pow2 (- 1075)"
      by (intro rnd64_error_pos) simp
    then show ?thesis using 3 by (simp add: rnd64_minus abs_minus_commute)
  qed
qed

lemma pow2_tiny: "pow2 (- 1075) \<le> 1 / 2 ^ 53"
proof -
  have "pow2 (- 1075) \<le> pow2 (- 53)" by (rule pow2_mono) simp
  then show ?thesis by (simp add: pow2_def)
qed

lemma rnd64_nonneg: "0 \<le> x \<Longrightarrow> 0 \<le> rnd64 x"
proof -
  assume x: "0 \<le> x"
  show ?thesis
  proof (cases "x = 0")
    case True
    then show ?thesis by (simp add: rnd64_def)
  next
    case False
    then have pos: "0 < x" using x by simp
    define u where "u = pow2 (max (binade x) (- 1022) - 52)"
    have u: "0 < u" by (simp add: u_def pow2_pos)
    have "of_int 0 \<le> x / u" using pos u by simp
    then have "0 \<le> round_half_even (x / u)" by (rule round_half_even_ge)
    then have "(0::rat) \<le> of_int (round_half_even (x / u))" by (simp only: of_int_0_le_iff)
    then have "0 \<le> of_int (round_half_even (x / u)) * u"
      using u by (intro mult_nonneg_nonneg) simp_all
    then show ?thesis using pos by (simp add: rnd64_pos u_def)
  qed
qed

lemma rnd64_nonpos: "x \<le> 0 \<Longrightarrow> rnd64 x \<le> 0"
  using rnd64_nonneg [of "- x"] by (simp add: rnd64_minus)

lemma rnd64_ge_half:
  assumes "1 \<le> x"
  shows "x / 2 \<le> rnd64 x"
proof -
  have pos: "0 < x" using assms by simp
  have b: "- 1022 \<le> binade x" using assms by (simp add: binade_def)
  define u where "u = pow2 (binade x - 52)"
  have u: "0 < u" by (simp add: u_def pow2_pos)
  have pe: "pow2 (binade x) = of_int (2 ^ 52) * u"
    using pow2_add [of 52 "binade x - 52"] by (simp add: u_def pow2_def)
  have r: "rnd64 x = of_int (round_half_even (x / u)) * u"
    using pos b by (simp add: rnd64_pos u_def max_def)
  have "of_int (2 ^ 52) * u \<le> x" using binade_lower [OF pos] pe by simp
  then have "of_int (2 ^ 52) \<le> x / u" using u by (simp add: field_simps)
  then have "2 ^ 52 \<le> round_half_even (x / u)" by (rule round_half_even_ge)
  then have "(of_int (2 ^ 52) :: rat) \<le> of_int (round_half_even (x / u))"
    by (simp only: of_int_le_iff)
  then have "of_int (2 ^ 52) * u \<le> of_int (round_half_even (x / u)) * u"
    using u by (intro mult_right_mono) simp_all
  then have ge: "pow2 (binade x) \<le> rnd64 x" by (simp only: pe r)
  have "x < pow2 (binade x) * 2"
    using binade_upper [OF pos] pow2_add [of "binade x" 1] by (simp add: pow2_def)
  then show ?thesis using ge by linarith
qed

section \<open>The PLL search returns the first best candidate\<close>

lemma pll_step_eq:
  "pll_step target c s =
     (case candidate_deviation target c of
        Inl e \<Rightarrow> Inl e
      | Inr None \<Rightarrow> Inr s
      | Inr (Some (fb, tf, fd)) \<Rightarrow>
          if fd < min_difference s \<and> fd < max_diff then
            Inr (s\<lparr>fb_divider := fb, post_divider1 := fst (snd c), post_divider2 := snd (snd c),
                   ref_divider := fst c, min_difference := fd, newf := tf\<rparr>)
          else Inr s)"
  by (simp add: pll_step_def candidate_deviation_def bindE_def split: prod.splits sum.splits)

lemma candidate_deviation_SomeD:
  assumes "candidate_deviation target (r, p1, p2) = Inr (Some (fb, tf, d))"
  shows "p2 \<le> p1" "temp_fb_divider target r p1 p2 = Inr fb" "0xA0 \<le> fb" "fb \<le> 0xEF"
    "temp_freq fb r p1 p2 = Inr tf" "freq_diff target tf = Inr d"
  using assms
  by (auto simp add: candidate_deviation_def bindE_def split: if_splits sum.splits)

lemma pll_step_inv:
  assumes inv: "pll_inv target visited s" and step: "pll_step target c s = Inr s'"
  shows "pll_inv target (visited @ [c]) s'"
proof (cases "candidate_deviation target c")
  case (Inl e)
  then show ?thesis using step by (simp add: pll_step_eq)
next
  case (Inr r)
  show ?thesis
  proof (cases r)
    case None
    then have s': "s' = s" and dev: "deviation target c = None"
      using Inr step by (simp_all add: pll_step_eq deviation_def)
    show ?thesis
    proof (cases "fb_divider s = 0")
      case True
      then show ?thesis using inv dev by (simp add: pll_inv_def s')
    next
      case False
      then obtain pre post where pp:
        "visited = pre @ [(ref_divider s, post_divider1 s, post_divider2 s)] @ post"
        "candidate_deviation target (ref_divider s, post_divider1 s, post_divider2 s)
               = Inr (Some (fb_divider s, newf s, min_difference s))"
        "min_difference s < 1"
        "\<forall>c\<in>set pre. \<forall>d. deviation target c = Some d \<longrightarrow> min_difference s < d"
        "\<forall>c\<in>set post. \<forall>d. deviation target c = Some d \<longrightarrow> min_difference s \<le> d"
        using inv by (auto simp add: pll_inv_def)
      have "visited @ [c] = pre @ [(ref_divider s, post_divider1 s, post_divider2 s)] @ (post @ [c])"
        using pp(1) by simp
      moreover have "\<forall>c'\<in>set (post @ [c]). \<forall>d. deviation target c' = Some d \<longrightarrow> min_difference s \<le> d"
        using pp(5) dev by auto
      ultimately show ?thesis
        unfolding pll_inv_def s' using False pp(2,3,4) by (intro if_not_P [THEN iffD2] exI conjI; assumption?) blast+
    qed
  next
    case (Some t)
    obtain fb tf d where t: "t = (fb, tf, d)" by (cases t)
    obtain r p1 p2 where c: "c = (r, p1, p2)" by (cases c)
    have cd: "candidate_deviation target (r, p1, p2) = Inr (Some (fb, tf, d))"
      using Inr Some t c by simp
    have dev: "deviation target c = Some d" using cd c by (simp add: deviation_def)
    have fb: "fb \<noteq> 0" using candidate_deviation_SomeD(3) [OF cd] by simp
    show ?thesis
    proof (cases "d < min_difference s \<and> d < max_diff")
      case True
      then have s': "s' = s\<lparr>fb_divider := fb, post_divider1 := p1, post_divider2 := p2,
                   ref_divider := r, min_difference := d, newf := tf\<rparr>"
        using step cd c by (simp add: pll_step_eq)
      have d1: "d < 1" using True by (simp add: max_diff_def)
      have older: "\<forall>c'\<in>set visited. \<forall>d'. deviation target c' = Some d' \<longrightarrow> d < d'"
      proof (cases "fb_divider s = 0")
        case True
        then show ?thesis using inv d1 by (fastforce simp add: pll_inv_def)
      next
        case False
        then obtain pre post where pp:
          "visited = pre @ [(ref_divider s, post_divider1 s, post_divider2 s)] @ post"
          "candidate_deviation target (ref_divider s, post_divider1 s, post_divider2 s)
               = Inr (Some (fb_divider s, newf s, min_difference s))"
          "\<forall>c\<in>set pre. \<forall>d. deviation target c = Some d \<longrightarrow> min_difference s < d"
          "\<forall>c\<in>set post. \<forall>d. deviation target c = Some d \<longrightarrow> min_difference s \<le> d"
          using inv by (auto simp add: pll_inv_def)
        have "deviation target (ref_divider s, post_divider1 s, post_divider2 s) = Some (min_difference s)"
          using pp(2) by (simp add: deviation_def)
        then show ?thesis using pp(1,3,4) True by fastforce
      qed
      have "visited @ [c] = visited @ [(r, p1, p2)] @ []" using c by simp
      then show ?thesis
        unfolding pll_inv_def s' using fb cd d1 older
        by simp (rule exI [of _ visited], rule exI [of _ "[]"], simp)
    next
      case False
      then have s': "s' = s" using step cd c by (auto simp add: pll_step_eq split: if_splits)
      show ?thesis
      proof (cases "fb_divider s = 0")
        case True
        then have "min_difference s = 10" using inv by (simp add: pll_inv_def)
        then have "\<not> d < 1" using False by (auto simp add: max_diff_def)
        then show ?thesis using True inv dev by (auto simp add: pll_inv_def s')
      next
        case nz: False
        then obtain pre post where pp:
          "visited = pre @ [(ref_divider s, post_divider1 s, post_divider2 s)] @ post"
          "candidate_deviation target (ref_divider s, post_divider1 s, post_divider2 s)
               = Inr (Some (fb_divider s, newf s, min_difference s))"
          "min_difference s < 1"
          "\<forall>c\<in>set pre. \<forall>d. deviation target c = Some d \<longrightarrow> min_difference s < d"
          "\<forall>c\<in>set post. \<forall>d. deviation target c = Some d \<longrightarrow> min_difference s \<le> d"
          using inv by (auto simp add: pll_inv_def)
        have ge: "min_difference s \<le> d" using False pp(3) by (auto simp add: max_diff_def)
        have "visited @ [c] = pre @ [(ref_divider s, post_divider1 s, post_divider2 s)] @ (post @ [c])"
          using pp(1) by simp
        moreover have "\<forall>c'\<in>set (post @ [c]). \<forall>d. deviation target c' = Some d \<longrightarrow> min_difference s \<le> d"
          using pp(5) dev ge by auto
        ultimately show ?thesis
          unfolding pll_inv_def s' using nz pp(2,3,4) by (intro if_not_P [THEN iffD2] exI conjI; assumption?) blast+
      qed
    qed
  qed
qed


lemma pll_loop_inv:
  "pll_inv target visited s \<Longrightarrow> pll_loop target rest s = Inr s'
     \<Longrightarrow> pll_inv target (visited @ rest) s'"
proof (induction rest arbitrary: visited s)
  case Nil
  then show ?case by simp
next
  case (Cons c rest)
  from Cons.prems(2) obtain s1 where s1: "pll_step target c s = Inr s1"
      "pll_loop target rest s1 = Inr s'"
    by (auto split: sum.splits)
  have "pll_inv target (visited @ [c]) s1"
    using Cons.prems(1) s1(1) by (rule pll_step_inv)
  then have "pll_inv target ((visited @ [c]) @ rest) s'"
    using s1(2) by (rule Cons.IH)
  then show ?case by simp
qed

lemma pll_inv_init: "pll_inv target [] pll_init"
  by (simp add: pll_inv_def pll_init_def)

lemma pll_search_inv:
  "pll_search target = Inr s \<Longrightarrow> pll_inv target pll_candidates s"
  using pll_loop_inv [OF pll_inv_init, of target pll_candidates s]
  by (simp add: pll_search_def)

lemma set_triples:
  "set (concat (map (\<lambda>a. concat (map (\<lambda>b. map (\<lambda>c. (a, b, c)) zs) ys)) xs))
     = {(a, b, c). a \<in> set xs \<and> b \<in> set ys \<and> c \<in> set zs}"
  by auto

lemma range_7_down: "p \<in> set [7, 6, 5, 4, 3, 2, 1] \<longleftrightarrow> 1 \<le> p \<and> p \<le> (7::int)"
  by (simp only: list.set insert_iff empty_iff) arith

lemma set_pll_candidates:
  "set pll_candidates = {(r, p1, p2). r \<in> {1, 2} \<and> 1 \<le> p1 \<and> p1 \<le> 7 \<and> 1 \<le> p2 \<and> p2 \<le> 7}"
  unfolding pll_candidates_def set_triples range_7_down by auto

text \<open>
  What the loop computes for a triple is what the formulas of the specification give,
  evaluated in float arithmetic.
\<close>

lemma temp_fb_divider_InrD:
  "temp_fb_divider target r p1 p2 = Inr fb \<Longrightarrow> fb = rounded_feedback target (r, p1, p2)"
  by (cases target)
    (auto simp add: temp_fb_divider_def rounded_feedback_def bindE_def
      split: sum.splits dest!: fl_InrD)

lemma temp_freq_InrD:
  assumes "temp_freq fb r p1 p2 = Inr tf" and "0xA0 \<le> fb" "fb \<le> 0xEF"
    and "r \<in> {1, 2}" "1 \<le> p2" "p2 \<le> p1" "p1 \<le> 7"
  shows "tf = rnd64 (25 * of_int fb / of_int (r * p1 * p2))"
proof -
  have f1: "fl (of_int fb) = Inr (of_int fb)" using assms(2,3) by (intro fl_of_int) simp
  have "fl (of_int (25 * fb)) = Inr (of_int (25 * fb))" using assms(2,3) by (intro fl_of_int) simp
  then have f2: "fl (25 * of_int fb) = Inr (25 * of_int fb)" by simp
  have "0 < p1 * p2" using assms(5,6) by (intro mult_pos_pos) simp_all
  moreover have "p1 * p2 \<le> 7 * 7" using assms(5-7) by (intro mult_mono) simp_all
  ultimately have d: "0 < r * p2 * p1" "r * p2 * p1 \<le> 98" using assms(4) by (auto simp add: mult.commute)
  then have f3: "fl (of_int (r * p2 * p1)) = Inr (of_int (r * p2 * p1))"
    by (intro fl_of_int) simp
  have "(0::rat) < of_int (r * p2 * p1)" using d(1) by (simp only: of_int_0_less_iff)
  then have nz: "(of_int (r * p2 * p1) :: rat) \<noteq> 0" by (metis less_irrefl)
  have "temp_freq fb r p1 p2 = fl (25 * of_int fb / of_int (r * p2 * p1))"
    by (simp only: temp_freq_def bindE_def f1 f2 f3 sum.case nz if_False)
  then have "fl (25 * of_int fb / of_int (r * p2 * p1)) = Inr tf"
    using assms(1) by simp
  then have "tf = rnd64 (25 * of_int fb / of_int (r * p2 * p1))" by (rule fl_InrD)
  then show ?thesis by (simp add: mult.commute mult.left_commute)
qed

lemma freq_diff_InrD:
  "freq_diff target tf = Inr d \<Longrightarrow> d = \<bar>rnd64 (target_value target - tf)\<bar>"
  by (cases target)
    (auto simp add: freq_diff_def to_float_def target_value_def bindE_def
      split: sum.splits dest!: fl_InrD)

lemma candidate_deviation_spec:
  assumes cd: "candidate_deviation target (r, p1, p2) = Inr x"
    and rng: "r \<in> {1, 2}" "1 \<le> p2" "p1 \<le> 7"
  shows "x = (if candidate target (r, p1, p2)
              then Some (rounded_feedback target (r, p1, p2),
                         rnd64 (25 * of_int (rounded_feedback target (r, p1, p2))
                                  / of_int (r * p1 * p2)),
                         float_deviation target (r, p1, p2))
              else None)"
proof (cases "p2 \<le> p1")
  case False
  then show ?thesis using cd by (simp add: candidate_deviation_def candidate_def)
next
  case True
  obtain fb where fb: "temp_fb_divider target r p1 p2 = Inr fb"
    using cd True by (auto simp add: candidate_deviation_def bindE_def split: sum.splits)
  have fbs: "fb = rounded_feedback target (r, p1, p2)" using fb by (rule temp_fb_divider_InrD)
  show ?thesis
  proof (cases "0xA0 \<le> fb \<and> fb \<le> 0xEF")
    case False
    then show ?thesis using cd True fb fbs
      by (auto simp add: candidate_deviation_def candidate_def bindE_def)
  next
    case inr: True
    obtain tf d where tf: "temp_freq fb r p1 p2 = Inr tf" and d: "freq_diff target tf = Inr d"
      and x: "x = Some (fb, tf, d)"
      using cd True fb inr
      by (auto simp add: candidate_deviation_def bindE_def split: sum.splits)
    have tfs: "tf = rnd64 (25 * of_int fb / of_int (r * p1 * p2))"
      using tf inr rng True by (intro temp_freq_InrD) simp_all
    have ds: "d = float_deviation target (r, p1, p2)"
      using freq_diff_InrD [OF d] by (simp add: float_deviation_def tfs fbs)
    have "candidate target (r, p1, p2)"
      using inr rng True by (simp add: candidate_def fbs)
    then show ?thesis using x tfs ds fbs by simp
  qed
qed

lemma pll_loop_no_error:
  "pll_loop target cs s = Inr s' \<Longrightarrow> c \<in> set cs \<Longrightarrow> \<exists>x. candidate_deviation target c = Inr x"
proof (induction cs arbitrary: s)
  case Nil
  then show ?case by simp
next
  case (Cons a cs)
  from Cons.prems(1) obtain s1 where s1: "pll_step target a s = Inr s1"
      "pll_loop target cs s1 = Inr s'"
    by (auto split: sum.splits)
  have "\<exists>x. candidate_deviation target a = Inr x"
    using s1(1) by (auto simp add: pll_step_eq split: sum.splits)
  then show ?case using Cons.IH [OF s1(2)] Cons.prems(2) by auto
qed

lemma deviation_spec:
  assumes "pll_search target = Inr s" and "r \<in> {1, 2}" "1 \<le> p1" "p1 \<le> 7" "1 \<le> p2" "p2 \<le> 7"
  shows "deviation target (r, p1, p2) =
           (if candidate target (r, p1, p2) then Some (float_deviation target (r, p1, p2)) else None)"
    and "candidate target (r, p1, p2) \<Longrightarrow>
           candidate_deviation target (r, p1, p2) =
             Inr (Some (rounded_feedback target (r, p1, p2),
                        rnd64 (25 * of_int (rounded_feedback target (r, p1, p2))
                                 / of_int (r * p1 * p2)),
                        float_deviation target (r, p1, p2)))"
proof -
  have "(r, p1, p2) \<in> set pll_candidates" using assms(2-6) by (simp add: set_pll_candidates)
  then obtain x where x: "candidate_deviation target (r, p1, p2) = Inr x"
    using pll_loop_no_error assms(1) unfolding pll_search_def by blast
  note sp = candidate_deviation_spec [OF x assms(2,5,4)]
  show "deviation target (r, p1, p2) =
           (if candidate target (r, p1, p2) then Some (float_deviation target (r, p1, p2)) else None)"
    using x sp by (simp add: deviation_def)
  show "candidate_deviation target (r, p1, p2) =
             Inr (Some (rounded_feedback target (r, p1, p2),
                        rnd64 (25 * of_int (rounded_feedback target (r, p1, p2))
                                 / of_int (r * p1 * p2)),
                        float_deviation target (r, p1, p2)))"
    if "candidate target (r, p1, p2)"
    using x sp that by simp
qed

lemma candidate_range:
  "candidate target (r, p1, p2) \<Longrightarrow> r \<in> {1, 2} \<and> 1 \<le> p1 \<and> p1 \<le> 7 \<and> 1 \<le> p2 \<and> p2 \<le> 7"
  by (auto simp add: candidate_def)

text \<open>
  The deviation in float arithmetic and the deviation as a number differ by the error of
  two roundings. An int target with a candidate is below \<open>2 ^ 53\<close>, so its conversion to
  a float is exact.
\<close>

lemma candidate_int_small:
  assumes "candidate (PyInt n) c"
  shows "\<bar>n\<bar> < 2 ^ 53"
proof (rule ccontr)
  assume big: "\<not> \<bar>n\<bar> < 2 ^ 53"
  obtain r p1 p2 where c: "c = (r, p1, p2)" by (cases c)
  define N where "N = p1 * p2 * n * r"
  define A where "A = rnd64 (of_int N)"
  define B where "B = rnd64 (A / 25)"
  have d: "1 \<le> r" "1 \<le> p2" "1 \<le> p1"
    and fb: "160 \<le> round_half_even B" "round_half_even B \<le> 239"
    using assms by (auto simp add: candidate_def rounded_feedback_def c A_def B_def N_def)
  define K where "K = p1 * p2 * r"
  have "1 * 1 \<le> p1 * p2" using d by (intro mult_mono) simp_all
  then have "1 * 1 \<le> p1 * p2 * r" using d by (intro mult_mono) simp_all
  then have k: "1 \<le> K" by (simp add: K_def)
  have N: "N = K * n" by (simp add: N_def K_def ac_simps)
  show False
  proof (cases "0 \<le> n")
    case True
    then have n: "2 ^ 53 \<le> n" using big by simp
    have "1 * n \<le> K * n" using k True by (intro mult_right_mono) simp_all
    then have "n \<le> K * n" by (simp only: mult_1)
    with n have "2 ^ 53 \<le> K * n" by (rule order_trans)
    then have "2 ^ 53 \<le> N" by (simp only: N)
    then have "(of_int (2 ^ 53) :: rat) \<le> of_int N" by (simp only: of_int_le_iff)
    then have x: "(2 ^ 53 :: rat) \<le> of_int N" by simp
    then have "(1::rat) \<le> of_int N" by simp
    then have "(of_int N :: rat) / 2 \<le> A" unfolding A_def by (rule rnd64_ge_half)
    then have a: "2 ^ 52 \<le> A" using x by simp
    then have "1 \<le> A / 25" by simp
    then have "A / 25 / 2 \<le> B" unfolding B_def by (rule rnd64_ge_half)
    then have "of_int 240 \<le> B" using a by simp
    then have "240 \<le> round_half_even B" by (rule round_half_even_ge)
    then show False using fb by simp
  next
    case False
    then have "N \<le> 0" using k N by (simp add: mult_le_0_iff)
    then have "(of_int N :: rat) \<le> 0" by simp
    then have "A \<le> 0" unfolding A_def by (rule rnd64_nonpos)
    then have "A / 25 \<le> 0" by simp
    then have "B \<le> of_int 0" unfolding B_def using rnd64_nonpos [of "A / 25"] by simp
    then have "round_half_even B \<le> 0" by (rule round_half_even_le)
    then show False using fb by simp
  qed
qed

lemma candidate_exact_target:
  "candidate target c \<Longrightarrow> target_value target = exact_target target"
proof (cases target)
  case (PyInt n)
  assume "candidate target c"
  then have "\<bar>n\<bar> < 2 ^ 53" unfolding PyInt by (rule candidate_int_small)
  then have "rnd64 (of_int n) = of_int n" by (rule rnd64_of_int)
  then show ?thesis by (simp add: target_value_def exact_target_def PyInt)
next
  case (PyFloat t)
  then show ?thesis by (simp add: target_value_def exact_target_def)
qed

lemma float_exact_deviation:
  assumes "candidate target c"
  obtains Y where "0 \<le> Y"
    and "Y - exact_deviation target c \<le> 5976 / 9007199254740992"
    and "exact_deviation target c - Y \<le> 5976 / 9007199254740992"
    and "Y - float_deviation target c \<le> Y / 9007199254740992 + 1 / 9007199254740992"
    and "float_deviation target c - Y \<le> Y / 9007199254740992 + 1 / 9007199254740992"
proof -
  obtain r p1 p2 where c: "c = (r, p1, p2)" by (cases c)
  define fb where "fb = rounded_feedback target c"
  define den :: rat where "den = of_int (r * p1 * p2)"
  define q where "q = 25 * of_int fb / den"
  define T where "T = target_value target"
  define y where "y = T - rnd64 q"
  have d: "1 \<le> r" "1 \<le> p2" "1 \<le> p1" and fb: "160 \<le> fb" "fb \<le> 239"
    using assms by (auto simp add: candidate_def c fb_def)
  have "1 * 1 \<le> r * p1" using d by (intro mult_mono) simp_all
  then have "1 * 1 \<le> r * p1 * p2" using d by (intro mult_mono) simp_all
  then have "1 \<le> r * p1 * p2" by simp
  then have "(of_int 1 :: rat) \<le> of_int (r * p1 * p2)" by (simp only: of_int_le_iff)
  then have den: "1 \<le> den" by (simp add: den_def)
  have "(of_int 160 :: rat) \<le> of_int fb" "(of_int fb :: rat) \<le> of_int 239"
    using fb by (simp_all only: of_int_le_iff)
  then have fbr: "(160 :: rat) \<le> of_int fb" "(of_int fb :: rat) \<le> 239" by simp_all
  have q0: "0 < q" using fbr den by (simp add: q_def)
  have "25 * of_int fb \<le> 5975 * den" using fbr den by linarith
  then have q1: "q \<le> 5975" using den by (simp add: q_def field_simps)
  have "\<bar>rnd64 q - q\<bar> \<le> \<bar>q\<bar> / 2 ^ 53 + pow2 (- 1075)" by (rule rnd64_error)
  then have eq: "\<bar>rnd64 q - q\<bar> \<le> 5976 / 9007199254740992"
    using q0 q1 pow2_tiny by simp
  have "\<bar>rnd64 y - y\<bar> \<le> \<bar>y\<bar> / 2 ^ 53 + pow2 (- 1075)" by (rule rnd64_error)
  then have ey: "\<bar>rnd64 y - y\<bar> \<le> \<bar>y\<bar> / 9007199254740992 + 1 / 9007199254740992"
    using pow2_tiny by simp
  have T: "T = exact_target target"
    unfolding T_def using assms by (rule candidate_exact_target)
  have ex: "exact_deviation target c = \<bar>T - q\<bar>"
    by (simp add: exact_deviation_def c T q_def fb_def den_def)
  have fd: "float_deviation target c = \<bar>rnd64 y\<bar>"
    by (simp add: float_deviation_def c y_def T_def q_def fb_def den_def)
  show ?thesis
  proof (rule that [of "\<bar>y\<bar>"])
    show "0 \<le> \<bar>y\<bar>" by simp
    show "\<bar>y\<bar> - exact_deviation target c \<le> 5976 / 9007199254740992"
      using eq unfolding ex y_def by linarith
    show "exact_deviation target c - \<bar>y\<bar> \<le> 5976 / 9007199254740992"
      using eq unfolding ex y_def by linarith
    show "\<bar>y\<bar> - float_deviation target c \<le> \<bar>y\<bar> / 9007199254740992 + 1 / 9007199254740992"
      using ey unfolding fd by linarith
    show "float_deviation target c - \<bar>y\<bar> \<le> \<bar>y\<bar> / 9007199254740992 + 1 / 9007199254740992"
      using ey unfolding fd by linarith
  qed
qed

lemma exact_deviation_nearly_least:
  assumes "candidate target b" and "candidate target c"
    and "float_deviation target b \<le> float_deviation target c"
    and "float_deviation target b < 1"
  shows "exact_deviation target b \<le> exact_deviation target c + 1 / 2 ^ 39"
proof -
  obtain Yb where b: "0 \<le> Yb"
    "Yb - exact_deviation target b \<le> 5976 / 9007199254740992"
    "exact_deviation target b - Yb \<le> 5976 / 9007199254740992"
    "Yb - float_deviation target b \<le> Yb / 9007199254740992 + 1 / 9007199254740992"
    "float_deviation target b - Yb \<le> Yb / 9007199254740992 + 1 / 9007199254740992"
    using float_exact_deviation [OF assms(1)] by blast
  obtain Yc where c: "0 \<le> Yc"
    "Yc - exact_deviation target c \<le> 5976 / 9007199254740992"
    "exact_deviation target c - Yc \<le> 5976 / 9007199254740992"
    "Yc - float_deviation target c \<le> Yc / 9007199254740992 + 1 / 9007199254740992"
    "float_deviation target c - Yc \<le> Yc / 9007199254740992 + 1 / 9007199254740992"
    using float_exact_deviation [OF assms(2)] by blast
  have "exact_deviation target b \<le> exact_deviation target c + 1 / 549755813888"
    using b c assms(3,4) by linarith
  then show ?thesis by simp
qed

lemma exact_deviation_cap:
  assumes "candidate target b" and "float_deviation target b < 1"
  shows "exact_deviation target b < 1 + 1 / 2 ^ 39"
proof -
  obtain Yb where b: "0 \<le> Yb"
    "Yb - exact_deviation target b \<le> 5976 / 9007199254740992"
    "exact_deviation target b - Yb \<le> 5976 / 9007199254740992"
    "Yb - float_deviation target b \<le> Yb / 9007199254740992 + 1 / 9007199254740992"
    "float_deviation target b - Yb \<le> Yb / 9007199254740992 + 1 / 9007199254740992"
    using float_exact_deviation [OF assms(1)] by blast
  have "exact_deviation target b < 1 + 1 / 549755813888"
    using b assms(2) by linarith
  then show ?thesis by simp
qed

text \<open>
  Claim C4, as amended. Whenever the search ends with a divider set (\<open>fb_divider\<close> is not
  0), that set is a candidate of the specification: \<open>ref\<close> in \<open>{1, 2}\<close>,
  \<open>1 \<le> pd2 \<le> pd1 \<le> 7\<close>, and its feedback divider is
  \<open>round (pd1 * pd2 * target * ref / 25)\<close>, evaluated in float arithmetic, and lies in
  \<open>[0xA0, 0xEF]\<close>. What the set minimizes is the deviation
  \<open>|target - 25 * fb / (ref * pd1 * pd2)|\<close> as the floats give it, the quotient and the
  difference each rounded to binary64: this deviation is below 1.0, no candidate has a
  smaller one, and every candidate that the loops visit before the returned set has a
  strictly larger one, so among the candidates tied at the minimum the first in the
  iteration order is returned. As a number, the deviation of the returned set is below
  \<open>1 + 2 ^ -39\<close> and exceeds that of no candidate by more than \<open>2 ^ -39\<close>; it need not be
  the least (last section).
\<close>

theorem pll_search_minimizes:
  assumes "pll_search target_freq = Inr s" and "fb_divider s \<noteq> 0"
  shows "candidate target_freq (ref_divider s, post_divider1 s, post_divider2 s)
       \<and> fb_divider s
           = rounded_feedback target_freq (ref_divider s, post_divider1 s, post_divider2 s)
       \<and> min_difference s
           = float_deviation target_freq (ref_divider s, post_divider1 s, post_divider2 s)
       \<and> float_deviation target_freq (ref_divider s, post_divider1 s, post_divider2 s) < 1
       \<and> (\<forall>c. candidate target_freq c \<longrightarrow>
              float_deviation target_freq (ref_divider s, post_divider1 s, post_divider2 s)
                \<le> float_deviation target_freq c)
       \<and> (\<forall>c. candidate target_freq c \<longrightarrow>
              exact_deviation target_freq (ref_divider s, post_divider1 s, post_divider2 s)
                \<le> exact_deviation target_freq c + 1 / 2 ^ 39)
       \<and> exact_deviation target_freq (ref_divider s, post_divider1 s, post_divider2 s)
           < 1 + 1 / 2 ^ 39
       \<and> (\<exists>earlier later.
             pll_candidates
               = earlier @ [(ref_divider s, post_divider1 s, post_divider2 s)] @ later
             \<and> (\<forall>c\<in>set earlier. candidate target_freq c \<longrightarrow>
                    float_deviation target_freq (ref_divider s, post_divider1 s, post_divider2 s)
                      < float_deviation target_freq c))"
proof -
  let ?best = "(ref_divider s, post_divider1 s, post_divider2 s)"
  obtain pre post where pp:
    "pll_candidates = pre @ [?best] @ post"
    "candidate_deviation target_freq ?best = Inr (Some (fb_divider s, newf s, min_difference s))"
    "min_difference s < 1"
    "\<forall>c\<in>set pre. \<forall>d. deviation target_freq c = Some d \<longrightarrow> min_difference s < d"
    "\<forall>c\<in>set post. \<forall>d. deviation target_freq c = Some d \<longrightarrow> min_difference s \<le> d"
    using pll_search_inv [OF assms(1)] assms(2) by (auto simp add: pll_inv_def)
  have "?best \<in> set pll_candidates" by (simp add: pp(1))
  then have rng: "ref_divider s \<in> {1, 2}" "1 \<le> post_divider1 s" "post_divider1 s \<le> 7"
    "1 \<le> post_divider2 s" "post_divider2 s \<le> 7"
    by (simp_all add: set_pll_candidates)
  note sp = candidate_deviation_spec [OF pp(2) rng(1,4,3)]
  have cand: "candidate target_freq ?best" using sp by (simp split: if_splits)
  have fb: "fb_divider s = rounded_feedback target_freq ?best"
    and md: "min_difference s = float_deviation target_freq ?best"
    using sp cand by simp_all
  have lt1: "float_deviation target_freq ?best < 1" using pp(3) md by simp
  have dev: "deviation target_freq c = Some (float_deviation target_freq c)"
    if "candidate target_freq c" for c
  proof -
    obtain r p1 p2 where c: "c = (r, p1, p2)" by (cases c)
    show ?thesis
      using deviation_spec(1) [OF assms(1), of r p1 p2] candidate_range [of target_freq r p1 p2] that
      unfolding c by simp
  qed
  have mem: "c \<in> set pll_candidates" if "candidate target_freq c" for c
  proof -
    obtain r p1 p2 where c: "c = (r, p1, p2)" by (cases c)
    show ?thesis using candidate_range [of target_freq r p1 p2] that
      unfolding c by (simp add: set_pll_candidates)
  qed
  have least: "float_deviation target_freq ?best \<le> float_deviation target_freq c"
    if "candidate target_freq c" for c
  proof -
    have "c \<in> set pre \<or> c = ?best \<or> c \<in> set post" using mem [OF that] by (auto simp add: pp(1))
    then show ?thesis using pp(4,5) dev [OF that] md by (auto simp add: less_imp_le)
  qed
  have near: "exact_deviation target_freq ?best \<le> exact_deviation target_freq c + 1 / 2 ^ 39"
    if "candidate target_freq c" for c
    using cand that least [OF that] lt1 by (rule exact_deviation_nearly_least)
  have cap: "exact_deviation target_freq ?best < 1 + 1 / 2 ^ 39"
    using cand lt1 by (rule exact_deviation_cap)
  have l: "\<forall>c. candidate target_freq c \<longrightarrow>
      float_deviation target_freq ?best \<le> float_deviation target_freq c"
    using least by blast
  have n: "\<forall>c. candidate target_freq c \<longrightarrow>
      exact_deviation target_freq ?best \<le> exact_deviation target_freq c + 1 / 2 ^ 39"
    using near by blast
  have "\<forall>c\<in>set pre. candidate target_freq c \<longrightarrow>
      float_deviation target_freq ?best < float_deviation target_freq c"
    using pp(4) dev md by auto
  then have first: "\<exists>earlier later.
      pll_candidates = earlier @ [?best] @ later
      \<and> (\<forall>c\<in>set earlier. candidate target_freq c \<longrightarrow>
             float_deviation target_freq ?best < float_deviation target_freq c)"
    using pp(1) by blast
  show ?thesis
    using cand fb md lt1 l n cap first by (intro conjI) assumption+
qed

theorem pll_search_minimizes_witness:
  "candidate (PyFloat 400) (2, 7, 1)
   \<and> rounded_feedback (PyFloat 400) (2, 7, 1) = 224
   \<and> float_deviation (PyFloat 400) (2, 7, 1) = 0
   \<and> exact_deviation (PyFloat 400) (2, 7, 1) < 1 + 1 / 2 ^ 39
   \<and> (\<exists>earlier later.
         pll_candidates = earlier @ [(2, 7, 1)] @ later
         \<and> (\<forall>c\<in>set earlier. candidate (PyFloat 400) c
               \<longrightarrow> 0 < float_deviation (PyFloat 400) c))"
proof -
  note t = pll_search_minimizes [OF pll_search_float_400, simplified]
  have a: "candidate (PyFloat 400) (2, 7, 1)" using t by simp
  have b: "rounded_feedback (PyFloat 400) (2, 7, 1) = 224" using t by simp
  have c: "float_deviation (PyFloat 400) (2, 7, 1) = 0" using t by simp
  have d: "exact_deviation (PyFloat 400) (2, 7, 1) < 1 + 1 / 2 ^ 39" using t by simp
  have e: "\<exists>earlier later.
         pll_candidates = earlier @ [(2, 7, 1)] @ later
         \<and> (\<forall>c\<in>set earlier. candidate (PyFloat 400) c
               \<longrightarrow> 0 < float_deviation (PyFloat 400) c)"
    using t unfolding c by simp
  show ?thesis using a b c d e by (intro conjI) assumption+
qed

section \<open>Chip addresses\<close>

text \<open>The float division and truncation of the source compute the floor quotient.\<close>

lemma address_interval_eq:
  assumes "1 \<le> n"
  shows "address_interval n = 256 div int n"
proof -
  define x :: rat where "x = 256 / of_nat n"
  define k where "k = 256 div int n"
  define r where "r = 256 mod int n"
  have n0: "0 < int n" using assms by simp
  have kr: "256 = k * int n + r" "0 \<le> r" "r < int n" "0 \<le> k"
    using n0 by (simp_all add: k_def r_def pos_imp_zdiv_nonneg_iff)
  have xpos: "0 < x" using assms by (simp add: x_def)
  have "x \<le> 256" using assms by (simp add: x_def field_simps)
  also have "(256::rat) < pow2 (53 - int 9)" by (simp add: pow2_def)
  finally have xlt: "x < pow2 (53 - int 9)" .
  have xeq: "x = of_int k + of_int r / of_int (int n)"
  proof -
    have "(256::rat) = of_int (k * int n + r)" using kr(1) by simp
    then show ?thesis using n0 by (simp add: x_def field_simps)
  qed
  have lo: "of_int (k * 512) / 2 ^ 9 \<le> x"
    using kr(2) n0 by (simp add: xeq)
  have hi: "x \<le> of_int (k * 512 + 511) / 2 ^ 9"
  proof (cases "int n \<le> 512")
    case True
    have "of_int r / (of_int (int n) :: rat) \<le> 1 - 1 / of_int (int n)"
      using kr(3) n0 by (simp add: field_simps)
    also have "\<dots> \<le> 1 - 1 / 512"
      using True n0 by (simp add: field_simps)
    finally show ?thesis by (simp add: xeq)
  next
    case False
    then have "k = 0" using n0 by (simp add: k_def div_pos_pos_trivial)
    moreover have "x \<le> 1 / 2" using False by (simp add: x_def field_simps)
    ultimately show ?thesis by simp
  qed
  have "of_int (k * 512) / 2 ^ 9 \<le> rnd64 x"
    using xpos xlt _ lo by (rule rnd64_ge_dyadic) simp
  then have ge: "of_int k \<le> rnd64 x" by simp
  have "rnd64 x \<le> of_int (k * 512 + 511) / 2 ^ 9"
    using xpos xlt _ hi by (rule rnd64_le_dyadic) simp
  then have lt: "rnd64 x < of_int k + 1" by simp
  have "0 \<le> rnd64 x" using ge kr(4) by (meson of_int_0_le_iff order_trans)
  then have "py_int (rnd64 x) = \<lfloor>rnd64 x\<rfloor>" by (simp add: py_int_def)
  also have "\<dots> = k" using ge lt by (simp add: floor_unique)
  finally show ?thesis by (simp add: address_interval_def x_def k_def)
qed

lemma address_is_byte:
  assumes "1 \<le> n" "i < n"
  shows "is_byte (int i * address_interval n)"
proof -
  define k where "k = 256 div int n"
  have k0: "0 \<le> k" using assms by (simp add: k_def pos_imp_zdiv_nonneg_iff)
  have "256 div int n * int n + 256 mod int n = 256" by simp
  moreover have "0 \<le> 256 mod int n" using assms by simp
  ultimately have "k * int n \<le> 256" unfolding k_def by linarith
  moreover have "int i * k \<le> (int n - 1) * k"
    using assms k0 by (intro mult_right_mono) simp_all
  ultimately have "int i * k \<le> 256 - k" by (simp add: algebra_simps)
  moreover have "int i * k \<le> 255" if "k = 0" using that by simp
  ultimately have "int i * k \<le> 255" using k0 by (cases "k = 0") simp_all
  moreover have "0 \<le> int i * k" using k0 by simp
  ultimately show ?thesis using assms by (simp add: is_byte_def address_interval_eq k_def)
qed

lemma addresses_distinct:
  assumes "1 \<le> n" "n \<le> 256"
  shows "distinct (map (\<lambda>i. int i * address_interval n) [0..<n])"
proof -
  have "int n \<le> 256" using assms by simp
  then have "0 < 256 div int n" using assms
    by (subst pos_imp_zdiv_pos_iff) simp_all
  then have "1 \<le> 256 div int n" by simp
  then have "inj_on (\<lambda>i. int i * (256 div int n)) (set [0..<n])"
    by (intro inj_onI) simp
  then show ?thesis using assms by (simp add: distinct_map address_interval_eq)
qed


section \<open>Frames sent by the steps of the sequence\<close>

lemma send_cmd:
  assumes "ser_open st" and "is_byte header" and "header AND TYPE_JOB = 0"
    and "list_all is_byte data" and "length data \<le> 252"
    and "is_byte (crc5 C ([header, int (length data) + 3] @ data))"
  shows "send C header data st = (Inr (), st\<lparr>tx_log := tx_log st @ [cmd_frame C header data]\<rparr>)"
  unfolding cmd_frame_def
  using build_frame_cmd [OF assms(2,4,3,5,6)] assms(1) by (rule send_frame)

lemma emitsD:
  "emits a frames \<Longrightarrow> ser_open st \<Longrightarrow> a st = (Inr (), st\<lparr>tx_log := tx_log st @ frames\<rparr>)"
  by (simp add: emits_def)

lemma emits_send:
  assumes "\<And>bs. is_byte (crc5 C bs)" and "is_byte header" and "header AND TYPE_JOB = 0"
    and "list_all is_byte data" and "length data \<le> 252"
  shows "emits (send C header data) [cmd_frame C header data]"
  unfolding emits_def using assms by (intro allI impI send_cmd) simp_all

lemma emits_forA:
  assumes "\<And>x. x \<in> set xs \<Longrightarrow> emits (body x) (f x)"
  shows "emits (forA xs body) (concat (map f xs))"
  using assms
proof (induction xs)
  case Nil
  show ?case by (simp add: emits_def)
next
  case (Cons x xs)
  have x: "emits (body x) (f x)" using Cons.prems by simp
  have xs: "emits (forA xs body) (concat (map f xs))" using Cons by simp
  show ?case
    unfolding emits_def
  proof (intro allI impI)
    fix st :: hw assume o: "ser_open st"
    have o1: "ser_open (st\<lparr>tx_log := tx_log st @ f x\<rparr>)" using o by simp
    show "forA (x # xs) body st
            = (Inr (), st\<lparr>tx_log := tx_log st @ concat (map f (x # xs))\<rparr>)"
      by (simp add: emitsD [OF x o] emitsD [OF xs o1])
  qed
qed

lemma emits_seqA_Nil: "emits (seqA []) []"
  by (simp add: emits_def seqA_def)

lemma emits_seqA_Cons:
  assumes "emits a fs" and "emits (seqA stmts) gs"
  shows "emits (seqA (a # stmts)) (fs @ gs)"
  unfolding emits_def
proof (intro allI impI)
  fix st :: hw assume o: "ser_open st"
  have o1: "ser_open (st\<lparr>tx_log := tx_log st @ fs\<rparr>)" using o by simp
  have "forA stmts (\<lambda>stmt. stmt) (st\<lparr>tx_log := tx_log st @ fs\<rparr>)
          = (Inr (), st\<lparr>tx_log := tx_log st @ fs\<rparr>\<lparr>tx_log := tx_log (st\<lparr>tx_log := tx_log st @ fs\<rparr>) @ gs\<rparr>)"
    using emitsD [OF assms(2) o1] by (simp only: seqA_def)
  then show "seqA (a # stmts) st = (Inr (), st\<lparr>tx_log := tx_log st @ fs @ gs\<rparr>)"
    by (simp add: seqA_def emitsD [OF assms(1) o])
qed

lemma headers:
  "TYPE_CMD OR GROUP_ALL OR CMD_WRITE = 0x51"
  "TYPE_CMD OR GROUP_ALL OR CMD_INACTIVE = 0x53"
  "TYPE_CMD OR GROUP_ALL OR CMD_READ = 0x52"
  "TYPE_CMD OR GROUP_SINGLE OR CMD_SETADDRESS = 0x40"
  "TYPE_CMD OR GROUP_SINGLE OR CMD_WRITE = 0x41"
  by (simp_all add: TYPE_CMD_def GROUP_ALL_def GROUP_SINGLE_def CMD_WRITE_def CMD_INACTIVE_def
      CMD_READ_def CMD_SETADDRESS_def)

lemma emits_cmd:
  assumes "\<And>bs. is_byte (crc5 C bs)" and "list_all is_byte data" and "length data \<le> 252"
  shows "emits (send C 0x51 data) [cmd_frame C 0x51 data]"
    "emits (send C 0x53 data) [cmd_frame C 0x53 data]"
    "emits (send C 0x52 data) [cmd_frame C 0x52 data]"
    "emits (send C 0x40 data) [cmd_frame C 0x40 data]"
    "emits (send C 0x41 data) [cmd_frame C 0x41 data]"
  using assms by (intro emits_send; simp add: is_byte_def TYPE_JOB_def)+

lemma emits_set_version_mask:
  assumes "\<And>bs. is_byte (crc5 C bs)"
  shows "emits (set_version_mask C 0xFFFFFFFF) [cmd_frame C 0x51 [0x00, 0xA4, 0x90, 0x00, 0xFF, 0xFF]]"
proof -
  have "set_version_mask C 0xFFFFFFFF = send C 0x51 [0x00, 0xA4, 0x90, 0x00, 0xFF, 0xFF]"
    by (simp add: set_version_mask_def headers)
  then show ?thesis using assms by (simp add: emits_cmd is_byte_def)
qed

lemma emits_send_chain_inactive:
  assumes "\<And>bs. is_byte (crc5 C bs)"
  shows "emits (send_chain_inactive C) [cmd_frame C 0x53 [0x00, 0x00]]"
  using assms by (simp add: send_chain_inactive_def headers emits_cmd is_byte_def)

lemma emits_addressing:
  assumes "\<And>bs. is_byte (crc5 C bs)" and "1 \<le> n"
  shows "emits (addressing C n)
           (map (\<lambda>i. cmd_frame C 0x40 [int i * (256 div int n), 0x00]) [0..<n])"
proof -
  have "emits (set_chip_address C (int i * address_interval n))
          [cmd_frame C 0x40 [int i * (256 div int n), 0x00]]" if "i \<in> set [0..<n]" for i
  proof -
    have "is_byte (int i * address_interval n)" using that assms(2) by (intro address_is_byte) simp_all
    then have "emits (send C 0x40 [int i * address_interval n, 0x00])
                 [cmd_frame C 0x40 [int i * address_interval n, 0x00]]"
      using assms(1) by (intro emits_cmd) (simp_all add: is_byte_def)
    then show ?thesis by (simp add: set_chip_address_def headers address_interval_eq [OF assms(2)])
  qed
  then have "emits (addressing C n)
      (concat (map (\<lambda>i. [cmd_frame C 0x40 [int i * (256 div int n), 0x00]]) [0..<n]))"
    unfolding addressing_def by (rule emits_forA)
  moreover have "concat (map (\<lambda>i. [f i]) xs) = map f xs" for f :: "nat \<Rightarrow> int list" and xs
    by (induction xs) simp_all
  ultimately show ?thesis by simp
qed

lemma emits_per_chip_tuning:
  assumes "\<And>bs. is_byte (crc5 C bs)" and "1 \<le> n"
  shows "emits (per_chip_tuning C n)
           (concat (map (\<lambda>i. per_chip_frames C (int i * (256 div int n))) [0..<n]))"
  unfolding per_chip_tuning_def
proof (rule emits_forA)
  fix i assume "i \<in> set [0..<n]"
  then have b: "is_byte (int i * address_interval n)" using assms(2) by (intro address_is_byte) simp_all
  have e: "emits (send C 0x41 (int i * address_interval n # rest))
             [cmd_frame C 0x41 (int i * address_interval n # rest)]"
    if "list_all is_byte rest" "length rest \<le> 5" for rest
    using assms(1) b that by (intro emits_cmd) simp_all
  show "emits (let addr = int i * address_interval n
       in seqA
            [send C (TYPE_CMD OR GROUP_SINGLE OR CMD_WRITE) [addr, 0xA8, 0x00, 0x07, 0x01, 0xF0],
             send C (TYPE_CMD OR GROUP_SINGLE OR CMD_WRITE) [addr, 0x18, 0xF0, 0x00, 0xC1, 0x00],
             send C (TYPE_CMD OR GROUP_SINGLE OR CMD_WRITE) [addr, 0x3C, 0x80, 0x00, 0x8B, 0x00],
             send C (TYPE_CMD OR GROUP_SINGLE OR CMD_WRITE) [addr, 0x3C, 0x80, 0x00, 0x80, 0x0C],
             send C (TYPE_CMD OR GROUP_SINGLE OR CMD_WRITE) [addr, 0x3C, 0x80, 0x00, 0x82, 0xAA]])
          (per_chip_frames C (int i * (256 div int n)))"
    unfolding Let_def headers per_chip_frames_def address_interval_eq [symmetric, OF assms(2)]
    using emits_seqA_Cons [OF e emits_seqA_Cons [OF e emits_seqA_Cons [OF e
          emits_seqA_Cons [OF e emits_seqA_Cons [OF e emits_seqA_Nil]]]]]
    by (simp add: is_byte_def)
qed


lemma largest_power_of_two_total: "\<exists>p. largest_power_of_two n = Some p"
proof (cases "1 \<le> n")
  case True
  then show ?thesis using largest_power_of_two_result [of n] by blast
next
  case False
  then show ?thesis by (simp add: largest_power_of_two_small)
qed

lemma is_byte_bit_reverse8: "is_byte (bit_reverse8 (x AND 0xFF))"
proof -
  have "x AND 255 \<le> 255" by (rule AND_upper2) simp
  moreover have "0 \<le> x AND 255" by simp
  ultimately show ?thesis using reverse_bits_byte [of "x AND 255"]
    by (simp add: reverse_bits_agrees_def is_byte_def)
qed

lemma get_difficulty_mask_bytes:
  "\<exists>m. get_difficulty_mask d = Some (Inr m) \<and> length m = 6 \<and> list_all is_byte m"
proof -
  obtain p where p: "largest_power_of_two d = Some p"
    using largest_power_of_two_total by blast
  have "is_byte 0" "is_byte 0x14" by (simp_all add: is_byte_def)
  moreover have "get_difficulty_mask d = Some (Inr [0x00, 0x14,
          bit_reverse8 (drop_bit 24 (p - 1) AND 0xFF), bit_reverse8 (drop_bit 16 (p - 1) AND 0xFF),
          bit_reverse8 (drop_bit 8 (p - 1) AND 0xFF), bit_reverse8 ((p - 1) AND 0xFF)])"
    by (simp only: get_difficulty_mask_def p option.case mask_loop_result)
  ultimately show ?thesis
    by (simp add: is_byte_bit_reverse8)
qed

lemma send_difficulty_mask_frames:
  assumes "\<And>bs. is_byte (crc5 C bs)" and "ser_open st"
  shows "\<exists>m. get_difficulty_mask d = Some (Inr m)
           \<and> send_difficulty_mask C d st
               = Some (Inr (), st\<lparr>tx_log := tx_log st @ [cmd_frame C 0x51 m]\<rparr>)"
proof -
  obtain m where m: "get_difficulty_mask d = Some (Inr m)" "length m = 6" "list_all is_byte m"
    using get_difficulty_mask_bytes by blast
  have "emits (send C 0x51 m) [cmd_frame C 0x51 m]"
    using assms(1) m(2,3) by (intro emits_cmd) simp_all
  then show ?thesis using m(1) assms(2)
    by (simp add: send_difficulty_mask_def headers emitsD)
qed

lemma fl_bounded:
  assumes "0 < x" and "x \<le> of_int m" and "m < 2 ^ 53"
  shows "\<exists>r. fl x = Inr r \<and> 0 \<le> r \<and> r \<le> of_int m"
proof -
  have "(of_int m :: rat) < of_int (2 ^ 53)" using assms(3) by (simp only: of_int_less_iff)
  then have "x < pow2 (53 - int 0)" using assms(2) by (simp add: pow2_def)
  note x = assms(1) this
  have "of_int 0 / 2 ^ 0 \<le> rnd64 x"
    using x by (rule rnd64_ge_dyadic) (use assms(1) in simp_all)
  then have ge: "0 \<le> rnd64 x" by simp
  have "rnd64 x \<le> of_int m / 2 ^ 0"
    using x by (rule rnd64_le_dyadic) (use assms(2) in simp_all)
  then have le: "rnd64 x \<le> of_int m" by simp
  have "(of_int m :: rat) < of_int (2 ^ 1024)"
    using assms(3) by (simp only: of_int_less_iff) simp
  then have "\<bar>rnd64 x\<bar> < pow2 1024" using ge le by (simp add: pow2_def)
  then show ?thesis using ge le by (simp add: fl_def)
qed

lemma freq_payload_bytes:
  assumes "0xA0 \<le> fb_divider s" "fb_divider s \<le> 0xEF" "ref_divider s \<in> {1, 2}"
  shows "\<exists>p. freq_payload s = Inr p \<and> length p = 6 \<and> list_all is_byte p"
proof -
  have num: "fl (of_int (fb_divider s * 25)) = Inr (of_int (fb_divider s * 25))"
    using assms(1,2) by (intro fl_of_int) simp
  have den: "fl (of_int (ref_divider s)) = Inr (of_int (ref_divider s))"
    using assms(3) by (intro fl_of_int) auto
  have "0 < (of_int (fb_divider s * 25) :: rat) / of_int (ref_divider s)"
    using assms by auto
  moreover have "(of_int (fb_divider s * 25) :: rat) / of_int (ref_divider s) \<le> of_int 5975"
    using assms by (auto simp add: field_simps)
  ultimately obtain vco where vco:
    "fl (of_int (fb_divider s * 25) / of_int (ref_divider s)) = Inr vco"
    using fl_bounded [of _ 5975] by auto
  have b5: "is_byte (push_bit 4 ((post_divider1 s - 1) AND 0xf) + ((post_divider2 s - 1) AND 0xf))"
  proof -
    define a where "a = (post_divider1 s - 1) AND 15"
    define b where "b = (post_divider2 s - 1) AND 15"
    have "a \<le> 15" "b \<le> 15" unfolding a_def b_def by (rule AND_upper2, simp)+
    moreover have "0 \<le> a" "0 \<le> b" by (simp_all add: a_def b_def)
    ultimately have "0 \<le> 16 * a + b \<and> 16 * a + b < 256" by linarith
    then show ?thesis by (simp add: is_byte_def push_bit_eq_mult a_def b_def)
  qed
  have bytes: "is_byte 0" "is_byte 8" "is_byte 0x40" "is_byte 0x50" "is_byte (fb_divider s)"
    "is_byte (ref_divider s)"
    using assms by (auto simp add: is_byte_def)
  have r0: "(of_int (ref_divider s) :: rat) \<noteq> 0" using assms(3) by auto
  show ?thesis
    using num den vco r0 b5 bytes
    by (simp add: freq_payload_def bindE_def Let_def)
qed

lemma pll_search_found:
  assumes "pll_search target = Inr s" and "fb_divider s \<noteq> 0"
  shows "0xA0 \<le> fb_divider s" "fb_divider s \<le> 0xEF" "ref_divider s \<in> {1, 2}"
proof -
  let ?best = "(ref_divider s, post_divider1 s, post_divider2 s)"
  obtain pre post where pp:
    "pll_candidates = pre @ [?best] @ post"
    "candidate_deviation target ?best = Inr (Some (fb_divider s, newf s, min_difference s))"
    using pll_search_inv [OF assms(1)] assms(2) by (auto simp add: pll_inv_def)
  have "?best \<in> set pll_candidates" by (simp add: pp(1))
  then show "ref_divider s \<in> {1, 2}" by (simp add: set_pll_candidates)
  show "0xA0 \<le> fb_divider s" "fb_divider s \<le> 0xEF"
    using candidate_deviation_SomeD(3,4) [OF pp(2)] by simp_all
qed

lemma emits_send_hash_frequency:
  assumes "\<And>bs. is_byte (crc5 C bs)" and "pll_search target = Inr s"
  shows "emits (send_hash_frequency C target) (frequency_frames C s)"
proof (cases "fb_divider s = 0")
  case True
  then show ?thesis using assms(2)
    by (simp add: emits_def send_hash_frequency_def frequency_frames_def)
next
  case False
  obtain p where p: "freq_payload s = Inr p" "length p = 6" "list_all is_byte p"
    using freq_payload_bytes [OF pll_search_found [OF assms(2) False]] by blast
  have "emits (send C 0x51 p) [cmd_frame C 0x51 p]"
    using assms(1) p(2,3) by (intro emits_cmd) simp_all
  then show ?thesis using False assms(2) p(1)
    by (simp add: emits_def send_hash_frequency_def frequency_frames_def headers)
qed


lemma init_configure_frames:
  assumes crc: "\<And>bs. is_byte (crc5 C bs)" and o: "ser_open st" and n: "1 \<le> n"
    and pll: "pll_search target = Inr s"
  shows "\<exists>m. get_difficulty_mask d = Some (Inr m)
           \<and> init_configure C target d n st
               = Some (Inr n, st\<lparr>tx_log := tx_log st
                                  @ configure_frames C n m (frequency_frames C s)\<rparr>)"
proof -
  have b: "list_all is_byte [a1, a2, a3, a4, a5, a6]"
    if "is_byte a1" "is_byte a2" "is_byte a3" "is_byte a4" "is_byte a5" "is_byte a6"
    for a1 a2 a3 a4 a5 a6
    using that by simp
  have w: "emits (send C (TYPE_CMD OR GROUP_ALL OR CMD_WRITE) [a1, a2, a3, a4, a5, a6])
             [cmd_frame C 0x51 [a1, a2, a3, a4, a5, a6]]"
    if "is_byte a1" "is_byte a2" "is_byte a3" "is_byte a4" "is_byte a5" "is_byte a6"
    for a1 a2 a3 a4 a5 a6
    unfolding headers using crc b [OF that] by (intro emits_cmd) simp_all
  let ?f1 = "[cmd_frame C 0x51 [0x00, 0xA4, 0x90, 0x00, 0xFF, 0xFF]]
     @ [cmd_frame C 0x51 [0x00, 0xA8, 0x00, 0x07, 0x00, 0x00]]
     @ [cmd_frame C 0x51 [0x00, 0x18, 0xF0, 0x00, 0xC1, 0x00]]
     @ [cmd_frame C 0x53 [0x00, 0x00]]
     @ map (\<lambda>i. cmd_frame C 0x40 [int i * (256 div int n), 0x00]) [0..<n]
     @ [cmd_frame C 0x51 [0x00, 0x3C, 0x80, 0x00, 0x8B, 0x00]]
     @ [cmd_frame C 0x51 [0x00, 0x3C, 0x80, 0x00, 0x80, 0x0C]]
     @ []"
  let ?f3 = "[cmd_frame C 0x51 [0x00, 0x58, 0x00, 0x01, 0x11, 0x11]]
     @ concat (map (\<lambda>i. per_chip_frames C (int i * (256 div int n))) [0..<n])
     @ [cmd_frame C 0x51 [0x00, 0xB9, 0x00, 0x00, 0x44, 0x80]]
     @ [cmd_frame C 0x51 [0x00, 0x54, 0x00, 0x00, 0x00, 0x02]]
     @ [cmd_frame C 0x51 [0x00, 0xB9, 0x00, 0x00, 0x44, 0x80]]
     @ [cmd_frame C 0x51 [0x00, 0x3C, 0x80, 0x00, 0x8D, 0xEE]]
     @ frequency_frames C s
     @ [cmd_frame C 0x51 [0x00, 0x10, 0x00, 0x00, 0x1E, 0xB5]]
     @ []"
  have e1: "emits (seqA
       [set_version_mask C 0xFFFFFFFF,
        send C (TYPE_CMD OR GROUP_ALL OR CMD_WRITE) [0x00, 0xA8, 0x00, 0x07, 0x00, 0x00],
        send C (TYPE_CMD OR GROUP_ALL OR CMD_WRITE) [0x00, 0x18, 0xF0, 0x00, 0xC1, 0x00],
        send_chain_inactive C,
        addressing C n,
        send C (TYPE_CMD OR GROUP_ALL OR CMD_WRITE) [0x00, 0x3C, 0x80, 0x00, 0x8B, 0x00],
        send C (TYPE_CMD OR GROUP_ALL OR CMD_WRITE) [0x00, 0x3C, 0x80, 0x00, 0x80, 0x0C]]) ?f1"
    by (intro emits_seqA_Cons emits_seqA_Nil emits_set_version_mask emits_send_chain_inactive
        emits_addressing w crc n) (simp_all add: is_byte_def)
  have e3: "emits (seqA
       [send C (TYPE_CMD OR GROUP_ALL OR CMD_WRITE) [0x00, 0x58, 0x00, 0x01, 0x11, 0x11],
        per_chip_tuning C n,
        send C (TYPE_CMD OR GROUP_ALL OR CMD_WRITE) [0x00, 0xB9, 0x00, 0x00, 0x44, 0x80],
        send C (TYPE_CMD OR GROUP_ALL OR CMD_WRITE) [0x00, 0x54, 0x00, 0x00, 0x00, 0x02],
        send C (TYPE_CMD OR GROUP_ALL OR CMD_WRITE) [0x00, 0xB9, 0x00, 0x00, 0x44, 0x80],
        send C (TYPE_CMD OR GROUP_ALL OR CMD_WRITE) [0x00, 0x3C, 0x80, 0x00, 0x8D, 0xEE],
        send_hash_frequency C target,
        send C (TYPE_CMD OR GROUP_ALL OR CMD_WRITE) [0x00, 0x10, 0x00, 0x00, 0x1E, 0xB5]]) ?f3"
    by (intro emits_seqA_Cons emits_seqA_Nil emits_per_chip_tuning
        emits_send_hash_frequency [OF crc pll] w crc n) (simp_all add: is_byte_def)
  let ?st1 = "st\<lparr>tx_log := tx_log st @ ?f1\<rparr>"
  have o1: "ser_open ?st1" using o by simp
  obtain m where m: "get_difficulty_mask d = Some (Inr m)"
    "send_difficulty_mask C d ?st1
       = Some (Inr (), ?st1\<lparr>tx_log := tx_log ?st1 @ [cmd_frame C 0x51 m]\<rparr>)"
    using send_difficulty_mask_frames [OF crc o1] by blast
  let ?st2 = "?st1\<lparr>tx_log := tx_log ?st1 @ [cmd_frame C 0x51 m]\<rparr>"
  have o2: "ser_open ?st2" using o by simp
  have "init_configure C target d n st = Some (Inr n, ?st2\<lparr>tx_log := tx_log ?st2 @ ?f3\<rparr>)"
    unfolding init_configure_def bindP_def liftP_def
    by (simp only: emitsD [OF e1 o] m(2) emitsD [OF e3 o2] option.case prod.case sum.case)
  moreover have "?st2\<lparr>tx_log := tx_log ?st2 @ ?f3\<rparr>
      = st\<lparr>tx_log := tx_log st @ configure_frames C n m (frequency_frames C s)\<rparr>"
    by (simp add: configure_frames_def)
  ultimately show ?thesis using m(1) by simp
qed


section \<open>The enumeration loop\<close>

lemma count_loop_state:
  assumes "count_loop len c st = Some y"
  shows "\<exists>k. snd y = st\<lparr>rx_pos := rx_pos st + k\<rparr>"
proof (rule count_loop.raw_induct [OF _ assms])
  fix f :: "nat \<Rightarrow> nat \<Rightarrow> hw \<Rightarrow> ((error + nat) \<times> hw) option"
  fix len c and st :: hw and y
  assume IH: "\<And>len c st y. f len c st = Some y \<Longrightarrow> \<exists>k. snd y = st\<lparr>rx_pos := rx_pos st + k\<rparr>"
  assume eq: "(case serial_rx_func len 5000 st of
      (Inl e, st1) \<Rightarrow> Some (Inl e, st1)
      | (Inr PyNone, st1) \<Rightarrow> Some (Inr c, st1)
      | (Inr (PyBytes data), st1) \<Rightarrow>
          if \<not> py_in chip_id_response (hexlify data)
          then f len c st1
          else f len (c + 1) st1) = Some y"
  show "\<exists>k. snd y = st\<lparr>rx_pos := rx_pos st + k\<rparr>"
  proof (cases "ser_open st")
    case False
    then have "snd y = st\<lparr>rx_pos := rx_pos st + 0\<rparr>"
      using eq by (auto simp add: serial_rx_func_def)
    then show ?thesis by blast
  next
    case True
    show ?thesis
    proof (cases "rx_script st (rx_pos st)")
      case PyNone
      then have "snd y = st\<lparr>rx_pos := rx_pos st + 1\<rparr>"
        using eq True by (auto simp add: serial_rx_func_def)
      then show ?thesis by blast
    next
      case (PyBytes data)
      let ?st1 = "st\<lparr>rx_pos := rx_pos st + 1\<rparr>"
      from eq True PyBytes have "f len c ?st1 = Some y \<or> f len (c + 1) ?st1 = Some y"
        by (simp add: serial_rx_func_def split: if_splits)
      then obtain k where "snd y = ?st1\<lparr>rx_pos := rx_pos ?st1 + k\<rparr>"
        using IH by blast
      then have "snd y = st\<lparr>rx_pos := rx_pos st + (1 + k)\<rparr>" by simp
      then show ?thesis by blast
    qed
  qed
qed

lemma emits_send_simple:
  "list_all is_byte data \<Longrightarrow> emits (send_simple data) [data]"
  by (simp add: emits_def send_simple_def bytearray_def serial_tx_func_def)

lemma upt_3: "[0..<3] = [0, 1, 2]"
  by (simp add: numeral_eq_Suc upt_rec)

lemma init_enumerate_eq:
  assumes crc: "\<And>bs. is_byte (crc5 C bs)" and o: "ser_open st"
  shows "init_enumerate C expected st =
     (case count_loop 11 0 (st\<lparr>tx_log := tx_log st @ enumerate_frames C\<rparr>) of
        None \<Rightarrow> None
      | Some (Inl e, st1) \<Rightarrow> Some (Inl e, st1)
      | Some (Inr n, st1) \<Rightarrow>
          Some (Inr n, st1\<lparr>tx_log := tx_log st1 @ [cmd_frame C 0x53 [0x00, 0x00]]\<rparr>))"
proof -
  let ?vm = "cmd_frame C 0x51 [0x00, 0xA4, 0x90, 0x00, 0xFF, 0xFF]"
  have "emits (forA [0..<3] (\<lambda>_. set_version_mask C 0xFFFFFFFF))
          (concat (map (\<lambda>_. [?vm]) [0..<3]))"
    by (intro emits_forA emits_set_version_mask crc)
  then have e1: "emits (forA [0..<3] (\<lambda>_. set_version_mask C 0xFFFFFFFF)) [?vm, ?vm, ?vm]"
    by (simp add: upt_3)
  have e2: "emits (send_simple [0x55, 0xAA, 0x52, 0x05, 0x00, 0x00, 0x0A])
              [[0x55, 0xAA, 0x52, 0x05, 0x00, 0x00, 0x0A]]"
    by (intro emits_send_simple) (simp add: is_byte_def)
  have e3: "emits (send C (TYPE_CMD OR GROUP_ALL OR CMD_READ) [0x00, 0x00])
              [cmd_frame C 0x52 [0x00, 0x00]]"
    unfolding headers using crc by (intro emits_cmd) (simp_all add: is_byte_def)
  let ?sa = "st\<lparr>tx_log := tx_log st @ [?vm, ?vm, ?vm]\<rparr>"
  let ?sb = "?sa\<lparr>tx_log := tx_log ?sa @ [[0x55, 0xAA, 0x52, 0x05, 0x00, 0x00, 0x0A]]\<rparr>"
  let ?sc = "?sb\<lparr>tx_log := tx_log ?sb @ [cmd_frame C 0x52 [0x00, 0x00]]\<rparr>"
  have oa: "ser_open ?sa" and ob: "ser_open ?sb" and oc: "ser_open ?sc" using o by simp_all
  have sc: "?sc = st\<lparr>tx_log := tx_log st @ enumerate_frames C\<rparr>"
    by (simp add: enumerate_frames_def)
  have fin: "send_chain_inactive C st1
               = (Inr (), st1\<lparr>tx_log := tx_log st1 @ [cmd_frame C 0x53 [0x00, 0x00]]\<rparr>)"
    if cl: "count_loop 11 0 ?sc = Some (r, st1)" for r st1
  proof -
    obtain k where "st1 = ?sc\<lparr>rx_pos := rx_pos ?sc + k\<rparr>"
      using count_loop_state [OF cl] by auto
    then have "ser_open st1" using o by simp
    then show ?thesis by (rule emitsD [OF emits_send_chain_inactive [OF crc]])
  qed
  have "init_enumerate C expected st =
     (case count_loop 11 0 ?sc of
        None \<Rightarrow> None
      | Some (Inl e, st1) \<Rightarrow> Some (Inl e, st1)
      | Some (Inr n, st1) \<Rightarrow>
          Some (Inr n, st1\<lparr>tx_log := tx_log st1 @ [cmd_frame C 0x53 [0x00, 0x00]]\<rparr>))"
    unfolding init_enumerate_def bindP_def liftP_def count_asic_chips_def
    by (simp only: emitsD [OF e1 o] emitsD [OF e2 oa] emitsD [OF e3 ob] option.case prod.case
        sum.case) (auto simp add: fin split: option.splits sum.splits)
  then show ?thesis by (simp only: sc)
qed

lemma init_enumerate_open:
  assumes crc: "\<And>bs. is_byte (crc5 C bs)" and o: "ser_open st"
    and "init_enumerate C expected st = Some (r, st1)"
  shows "ser_open st1"
proof -
  let ?sc = "st\<lparr>tx_log := tx_log st @ enumerate_frames C\<rparr>"
  obtain r' st' where c: "count_loop 11 0 ?sc = Some (r', st')"
    using assms(3) by (auto simp add: init_enumerate_eq [OF crc o] split: option.splits)
  obtain k where "st' = ?sc\<lparr>rx_pos := rx_pos ?sc + k\<rparr>"
    using count_loop_state [OF c] by auto
  then have "ser_open st'" using o by simp
  then show ?thesis using assms(3) c
    by (auto simp add: init_enumerate_eq [OF crc o] split: sum.splits)
qed


lemma count_loop_None:
  "ser_open st \<Longrightarrow> rx_script st (rx_pos st) = PyNone \<Longrightarrow>
     count_loop len c st = Some (Inr c, st\<lparr>rx_pos := rx_pos st + 1\<rparr>)"
  by (subst count_loop.simps) (simp add: serial_rx_func_def)

lemma count_loop_match:
  "ser_open st \<Longrightarrow> rx_script st (rx_pos st) = PyBytes data \<Longrightarrow>
     py_in chip_id_response (hexlify data) \<Longrightarrow>
     count_loop len c st = count_loop len (c + 1) (st\<lparr>rx_pos := rx_pos st + 1\<rparr>)"
  by (subst count_loop.simps) (simp add: serial_rx_func_def)

lemma chip_reply_matches:
  "py_in chip_id_response
     (hexlify [0xAA, 0x55, 0x13, 0x70, 0x00, 0x00, 0x00, 0x00, 0x00, 0x00, 0x06])"
  by code_simp

lemma zero_crc_byte: "is_byte (crc5 zero_crc bs)"
  by (simp add: zero_crc_def is_byte_def)

lemma cmd_frame_zero_crc:
  "cmd_frame zero_crc header data = [0x55, 0xAA, header, int (length data) + 3] @ data @ [0]"
  by (simp add: cmd_frame_def zero_crc_def)

lemma init_enumerate_no_chip:
  "init_enumerate zero_crc expected (fresh_port (\<lambda>i. PyNone)) =
     Some (Inr 0,
       \<lparr>ser_open = True,
        tx_log = [[0x55, 0xAA, 0x51, 9, 0x00, 0xA4, 0x90, 0x00, 0xFF, 0xFF, 0],
                  [0x55, 0xAA, 0x51, 9, 0x00, 0xA4, 0x90, 0x00, 0xFF, 0xFF, 0],
                  [0x55, 0xAA, 0x51, 9, 0x00, 0xA4, 0x90, 0x00, 0xFF, 0xFF, 0],
                  [0x55, 0xAA, 0x52, 0x05, 0x00, 0x00, 0x0A],
                  [0x55, 0xAA, 0x52, 5, 0x00, 0x00, 0],
                  [0x55, 0xAA, 0x53, 5, 0x00, 0x00, 0]],
        rx_script = (\<lambda>i. PyNone), rx_pos = 1\<rparr>)"
proof -
  have o: "ser_open (fresh_port (\<lambda>i. PyNone))" by (simp add: fresh_port_def)
  show ?thesis
    by (subst init_enumerate_eq [OF zero_crc_byte o])
      (simp add: count_loop_None fresh_port_def enumerate_frames_def cmd_frame_zero_crc)
qed

lemma init_enumerate_one_chip:
  "init_enumerate zero_crc expected (fresh_port one_chip) =
     Some (Inr 1,
       \<lparr>ser_open = True,
        tx_log = [[0x55, 0xAA, 0x51, 9, 0x00, 0xA4, 0x90, 0x00, 0xFF, 0xFF, 0],
                  [0x55, 0xAA, 0x51, 9, 0x00, 0xA4, 0x90, 0x00, 0xFF, 0xFF, 0],
                  [0x55, 0xAA, 0x51, 9, 0x00, 0xA4, 0x90, 0x00, 0xFF, 0xFF, 0],
                  [0x55, 0xAA, 0x52, 0x05, 0x00, 0x00, 0x0A],
                  [0x55, 0xAA, 0x52, 5, 0x00, 0x00, 0],
                  [0x55, 0xAA, 0x53, 5, 0x00, 0x00, 0]],
        rx_script = one_chip, rx_pos = 2\<rparr>)"
proof -
  have o: "ser_open (fresh_port one_chip)" by (simp add: fresh_port_def)
  have 0: "one_chip 0 = PyBytes [0xAA, 0x55, 0x13, 0x70, 0x00, 0x00, 0x00, 0x00, 0x00, 0x00, 0x06]"
    and 1: "one_chip (Suc 0) = PyNone"
    by (simp_all add: one_chip_def)
  show ?thesis
    by (subst init_enumerate_eq [OF zero_crc_byte o])
      (simp add: fresh_port_def count_loop_match [OF _ _ chip_reply_matches] 0 1 count_loop_None
        enumerate_frames_def cmd_frame_zero_crc)
qed

section \<open>No chips found\<close>

text \<open>
  Claim C7. Whenever the enumeration (lines 126 to 130) returns the count 0, \<open>send_init\<close>
  raises the exception ``No ASIC chips found'' and the transport is left as the
  enumeration left it: no set-address command and no frame of a later step is sent.
\<close>

theorem send_init_no_chips:
  assumes "init_enumerate C expected st = Some (Inr 0, st1)"
  shows "send_init C frequency expected difficulty st = Some (Inl NoAsicChipsFound, st1)"
  using assms by (simp add: send_init_def bindP_def)

theorem send_init_no_chips_witness:
  "send_init zero_crc (PyInt 400) 1 16 (fresh_port (\<lambda>i. PyNone)) =
     Some (Inl NoAsicChipsFound,
       \<lparr>ser_open = True,
        tx_log = [[0x55, 0xAA, 0x51, 9, 0x00, 0xA4, 0x90, 0x00, 0xFF, 0xFF, 0],
                  [0x55, 0xAA, 0x51, 9, 0x00, 0xA4, 0x90, 0x00, 0xFF, 0xFF, 0],
                  [0x55, 0xAA, 0x51, 9, 0x00, 0xA4, 0x90, 0x00, 0xFF, 0xFF, 0],
                  [0x55, 0xAA, 0x52, 0x05, 0x00, 0x00, 0x0A],
                  [0x55, 0xAA, 0x52, 5, 0x00, 0x00, 0],
                  [0x55, 0xAA, 0x53, 5, 0x00, 0x00, 0]],
        rx_script = (\<lambda>i. PyNone), rx_pos = 1\<rparr>)"
  by (rule send_init_no_chips [OF init_enumerate_no_chip])


section \<open>No divider set found\<close>

lemma send_hash_frequency_not_found:
  "pll_search frequency = Inr s \<Longrightarrow> fb_divider s = 0 \<Longrightarrow>
     send_hash_frequency C frequency st = (Inr (), st)"
  by (simp add: send_hash_frequency_def)

lemma send_init_frames:
  assumes crc: "\<And>bs. is_byte (crc5 C bs)" and o: "ser_open st"
    and enum: "init_enumerate C expected st = Some (Inr n, st1)" and n: "n \<noteq> 0"
    and pll: "pll_search frequency = Inr s"
  shows "\<exists>m. get_difficulty_mask difficulty = Some (Inr m)
           \<and> send_init C frequency expected difficulty st
               = Some (Inr n, st1\<lparr>tx_log := tx_log st1
                                    @ configure_frames C n m (frequency_frames C s)\<rparr>)"
proof -
  have o1: "ser_open st1" using crc o enum by (rule init_enumerate_open)
  have "1 \<le> n" using n by simp
  from init_configure_frames [OF crc o1 this pll, of difficulty]
  show ?thesis using enum n by (simp add: send_init_def bindP_def)
qed

text \<open>
  Claim C3, as amended. For every target frequency for which the search ends without a
  divider set, \<open>send_hash_frequency\<close> sends no frequency-configuration frame and raises
  nothing (it only logs); \<open>send_init\<close> does not fail on that account: with the port open,
  \<open>crc5\<close> returning a byte and a chip count \<open>n\<close> other than 0 from the enumeration, it
  goes on to the final commit frame and returns \<open>n\<close>, having sent the frames of the
  sequence without a frequency frame.
\<close>

theorem send_init_frequency_not_found:
  assumes "\<And>bs. is_byte (crc5 C bs)" and "ser_open st"
    and "init_enumerate C expected st = Some (Inr n, st1)" and "n \<noteq> 0"
    and "pll_search frequency = Inr s" and "fb_divider s = 0"
  shows "send_hash_frequency C frequency st2 = (Inr (), st2)
       \<and> (\<exists>m. get_difficulty_mask difficulty = Some (Inr m)
              \<and> send_init C frequency expected difficulty st
                  = Some (Inr n, st1\<lparr>tx_log := tx_log st1 @ configure_frames C n m []\<rparr>))"
  using send_init_frames [OF assms(1-5), of difficulty] assms(5,6)
  by (simp add: send_hash_frequency_not_found frequency_frames_def)

lemma pll_search_float_10000: "pll_search (PyFloat 10000) = Inr pll_init"
  by (simp add: pll_search_def pll_candidates_def pll_eval)

lemma pll_search_float_0: "pll_search (PyFloat 0) = Inr pll_init"
  by (simp add: pll_search_def pll_candidates_def pll_eval)

lemma get_difficulty_mask_16: "get_difficulty_mask 16 = Some (Inr [0x00, 0x14, 0x00, 0x00, 0x00, 0xF0])"
  by code_simp

lemma configure_frames_one_chip:
  "configure_frames zero_crc (Suc 0) [0x00, 0x14, 0x00, 0x00, 0x00, 0xF0] [] =
     [[0x55, 0xAA, 0x51, 9, 0x00, 0xA4, 0x90, 0x00, 0xFF, 0xFF, 0],
      [0x55, 0xAA, 0x51, 9, 0x00, 0xA8, 0x00, 0x07, 0x00, 0x00, 0],
      [0x55, 0xAA, 0x51, 9, 0x00, 0x18, 0xF0, 0x00, 0xC1, 0x00, 0],
      [0x55, 0xAA, 0x53, 5, 0x00, 0x00, 0],
      [0x55, 0xAA, 0x40, 5, 0x00, 0x00, 0],
      [0x55, 0xAA, 0x51, 9, 0x00, 0x3C, 0x80, 0x00, 0x8B, 0x00, 0],
      [0x55, 0xAA, 0x51, 9, 0x00, 0x3C, 0x80, 0x00, 0x80, 0x0C, 0],
      [0x55, 0xAA, 0x51, 9, 0x00, 0x14, 0x00, 0x00, 0x00, 0xF0, 0],
      [0x55, 0xAA, 0x51, 9, 0x00, 0x58, 0x00, 0x01, 0x11, 0x11, 0],
      [0x55, 0xAA, 0x41, 9, 0x00, 0xA8, 0x00, 0x07, 0x01, 0xF0, 0],
      [0x55, 0xAA, 0x41, 9, 0x00, 0x18, 0xF0, 0x00, 0xC1, 0x00, 0],
      [0x55, 0xAA, 0x41, 9, 0x00, 0x3C, 0x80, 0x00, 0x8B, 0x00, 0],
      [0x55, 0xAA, 0x41, 9, 0x00, 0x3C, 0x80, 0x00, 0x80, 0x0C, 0],
      [0x55, 0xAA, 0x41, 9, 0x00, 0x3C, 0x80, 0x00, 0x82, 0xAA, 0],
      [0x55, 0xAA, 0x51, 9, 0x00, 0xB9, 0x00, 0x00, 0x44, 0x80, 0],
      [0x55, 0xAA, 0x51, 9, 0x00, 0x54, 0x00, 0x00, 0x00, 0x02, 0],
      [0x55, 0xAA, 0x51, 9, 0x00, 0xB9, 0x00, 0x00, 0x44, 0x80, 0],
      [0x55, 0xAA, 0x51, 9, 0x00, 0x3C, 0x80, 0x00, 0x8D, 0xEE, 0],
      [0x55, 0xAA, 0x51, 9, 0x00, 0x10, 0x00, 0x00, 0x1E, 0xB5, 0]]"
  by (simp add: configure_frames_def per_chip_frames_def cmd_frame_zero_crc)

theorem send_init_frequency_not_found_witness:
  "send_hash_frequency zero_crc (PyFloat 10000) (fresh_port one_chip) = (Inr (), fresh_port one_chip)
   \<and> (\<exists>st. send_init zero_crc (PyFloat 10000) 1 16 (fresh_port one_chip) = Some (Inr 1, st)
          \<and> last (tx_log st) = [0x55, 0xAA, 0x51, 9, 0x00, 0x10, 0x00, 0x00, 0x1E, 0xB5, 0])"
proof -
  have o: "ser_open (fresh_port one_chip)" by (simp add: fresh_port_def)
  have z: "fb_divider pll_init = 0" by (simp add: pll_init_def)
  have n: "(1::nat) \<noteq> 0" by simp
  from send_init_frequency_not_found
    [OF zero_crc_byte o init_enumerate_one_chip n pll_search_float_10000 z,
      of "fresh_port one_chip" 16]
  show ?thesis
    by (auto simp add: get_difficulty_mask_16 configure_frames_one_chip)
qed

text \<open>
  Claim C3 as stated fails: for the target 0.0 no divider set is found, yet \<open>send_init\<close>
  with one chip on the chain completes, sends the final commit frame and returns the
  chip count 1.
\<close>

theorem send_init_continues_without_frequency_counterexample:
  "pll_search (PyFloat 0) = Inr pll_init \<and> fb_divider pll_init = 0
   \<and> send_init zero_crc (PyFloat 0) 1 16 (fresh_port one_chip) =
       Some (Inr 1,
         \<lparr>ser_open = True,
          tx_log =
            [[0x55, 0xAA, 0x51, 9, 0x00, 0xA4, 0x90, 0x00, 0xFF, 0xFF, 0],
             [0x55, 0xAA, 0x51, 9, 0x00, 0xA4, 0x90, 0x00, 0xFF, 0xFF, 0],
             [0x55, 0xAA, 0x51, 9, 0x00, 0xA4, 0x90, 0x00, 0xFF, 0xFF, 0],
             [0x55, 0xAA, 0x52, 0x05, 0x00, 0x00, 0x0A],
             [0x55, 0xAA, 0x52, 5, 0x00, 0x00, 0],
             [0x55, 0xAA, 0x53, 5, 0x00, 0x00, 0],
             [0x55, 0xAA, 0x51, 9, 0x00, 0xA4, 0x90, 0x00, 0xFF, 0xFF, 0],
             [0x55, 0xAA, 0x51, 9, 0x00, 0xA8, 0x00, 0x07, 0x00, 0x00, 0],
             [0x55, 0xAA, 0x51, 9, 0x00, 0x18, 0xF0, 0x00, 0xC1, 0x00, 0],
             [0x55, 0xAA, 0x53, 5, 0x00, 0x00, 0],
             [0x55, 0xAA, 0x40, 5, 0x00, 0x00, 0],
             [0x55, 0xAA, 0x51, 9, 0x00, 0x3C, 0x80, 0x00, 0x8B, 0x00, 0],
             [0x55, 0xAA, 0x51, 9, 0x00, 0x3C, 0x80, 0x00, 0x80, 0x0C, 0],
             [0x55, 0xAA, 0x51, 9, 0x00, 0x14, 0x00, 0x00, 0x00, 0xF0, 0],
             [0x55, 0xAA, 0x51, 9, 0x00, 0x58, 0x00, 0x01, 0x11, 0x11, 0],
             [0x55, 0xAA, 0x41, 9, 0x00, 0xA8, 0x00, 0x07, 0x01, 0xF0, 0],
             [0x55, 0xAA, 0x41, 9, 0x00, 0x18, 0xF0, 0x00, 0xC1, 0x00, 0],
             [0x55, 0xAA, 0x41, 9, 0x00, 0x3C, 0x80, 0x00, 0x8B, 0x00, 0],
             [0x55, 0xAA, 0x41, 9, 0x00, 0x3C, 0x80, 0x00, 0x80, 0x0C, 0],
             [0x55, 0xAA, 0x41, 9, 0x00, 0x3C, 0x80, 0x00, 0x82, 0xAA, 0],
             [0x55, 0xAA, 0x51, 9, 0x00, 0xB9, 0x00, 0x00, 0x44, 0x80, 0],
             [0x55, 0xAA, 0x51, 9, 0x00, 0x54, 0x00, 0x00, 0x00, 0x02, 0],
             [0x55, 0xAA, 0x51, 9, 0x00, 0xB9, 0x00, 0x00, 0x44, 0x80, 0],
             [0x55, 0xAA, 0x51, 9, 0x00, 0x3C, 0x80, 0x00, 0x8D, 0xEE, 0],
             [0x55, 0xAA, 0x51, 9, 0x00, 0x10, 0x00, 0x00, 0x1E, 0xB5, 0]],
          rx_script = one_chip, rx_pos = 2\<rparr>)"
proof -
  have o: "ser_open (fresh_port one_chip)" by (simp add: fresh_port_def)
  have z: "fb_divider pll_init = 0" by (simp add: pll_init_def)
  have n: "(1::nat) \<noteq> 0" by simp
  from send_init_frames [OF zero_crc_byte o init_enumerate_one_chip n pll_search_float_0, of 16]
  show ?thesis
    by (simp add: pll_search_float_0 z get_difficulty_mask_16 frequency_frames_def
        configure_frames_one_chip)
qed


section \<open>The addressing step\<close>

text \<open>
  Claim C5, as amended. For every chip count of at least 1, with the port open and \<open>crc5\<close>
  returning a byte, the addressing step sends exactly one single-target set-address
  command per chip, chip \<open>i\<close> receiving the address \<open>i * floor(256 / chip_count)\<close>; each
  address lies in \<open>[0, 255]\<close>; for a chip count of at most 256 the addresses are pairwise
  distinct; for 3 chips they are 0, 85 and 170.
\<close>

theorem addressing_frames:
  assumes "\<And>bs. is_byte (crc5 C bs)" and "ser_open st" and "1 \<le> chip_count"
  shows "address_interval chip_count = 256 div int chip_count
       \<and> addressing C chip_count st =
           (Inr (), st\<lparr>tx_log := tx_log st @
              map (\<lambda>i. cmd_frame C (TYPE_CMD OR GROUP_SINGLE OR CMD_SETADDRESS)
                          [int i * (256 div int chip_count), 0x00]) [0..<chip_count]\<rparr>)
       \<and> (\<forall>i<chip_count. 0 \<le> int i * (256 div int chip_count)
                          \<and> int i * (256 div int chip_count) \<le> 255)
       \<and> (chip_count \<le> 256 \<longrightarrow>
            distinct (map (\<lambda>i. int i * (256 div int chip_count)) [0..<chip_count]))
       \<and> map (\<lambda>i. int i * address_interval 3) [0..<3] = [0, 85, 170]"
proof (intro conjI allI impI)
  show "address_interval chip_count = 256 div int chip_count"
    using assms(3) by (rule address_interval_eq)
  show "addressing C chip_count st =
           (Inr (), st\<lparr>tx_log := tx_log st @
              map (\<lambda>i. cmd_frame C (TYPE_CMD OR GROUP_SINGLE OR CMD_SETADDRESS)
                          [int i * (256 div int chip_count), 0x00]) [0..<chip_count]\<rparr>)"
    unfolding headers using emits_addressing [OF assms(1,3)] assms(2) by (rule emitsD)
  show "0 \<le> int i * (256 div int chip_count)" "int i * (256 div int chip_count) \<le> 255"
    if "i < chip_count" for i
    using address_is_byte [OF assms(3) that]
    by (simp_all add: is_byte_def address_interval_eq [OF assms(3)])
  show "distinct (map (\<lambda>i. int i * (256 div int chip_count)) [0..<chip_count])"
    if "chip_count \<le> 256"
    using addresses_distinct [OF assms(3) that] by (simp add: address_interval_eq [OF assms(3)])
  show "map (\<lambda>i. int i * address_interval 3) [0..<3] = [0, 85, 170]"
    by (simp add: address_interval_eq upt_3)
qed

theorem addressing_frames_witness:
  "addressing zero_crc 3 (fresh_port (\<lambda>i. PyNone)) =
     (Inr (), (fresh_port (\<lambda>i. PyNone))\<lparr>tx_log :=
        [[0x55, 0xAA, 0x40, 5, 0, 0x00, 0],
         [0x55, 0xAA, 0x40, 5, 85, 0x00, 0],
         [0x55, 0xAA, 0x40, 5, 170, 0x00, 0]]\<rparr>)
   \<and> distinct [0, 85, 170 :: int]"
proof -
  have o: "ser_open (fresh_port (\<lambda>i. PyNone))" by (simp add: fresh_port_def)
  have n: "1 \<le> (3::nat)" by simp
  from addressing_frames [OF zero_crc_byte o n]
  show ?thesis
    by (simp add: headers cmd_frame_zero_crc upt_3 fresh_port_def)
qed

text \<open>
  Claim C5 as stated, for every chip count, fails: with 257 chips the interval is
  \<open>int(256 / 257) = 0\<close> and every chip is given the address 0.
\<close>

theorem addressing_257_chips_counterexample:
  "address_interval 257 = 0
   \<and> addressing zero_crc 257 (fresh_port (\<lambda>i. PyNone)) =
       (Inr (), (fresh_port (\<lambda>i. PyNone))\<lparr>tx_log :=
          replicate 257 [0x55, 0xAA, 0x40, 5, 0, 0x00, 0]\<rparr>)
   \<and> \<not> distinct (map (\<lambda>i. int i * address_interval 257) [0..<257])"
proof -
  have o: "ser_open (fresh_port (\<lambda>i. PyNone))" by (simp add: fresh_port_def)
  have n: "1 \<le> (257::nat)" by simp
  have a: "address_interval 257 = 0" by (simp add: address_interval_eq)
  have c: "map (\<lambda>i. k) [0..<257] = replicate 257 k" for k :: "'a"
    by (simp add: map_replicate_const)
  have "addressing zero_crc 257 (fresh_port (\<lambda>i. PyNone)) =
       (Inr (), (fresh_port (\<lambda>i. PyNone))\<lparr>tx_log := tx_log (fresh_port (\<lambda>i. PyNone)) @
          map (\<lambda>i. cmd_frame zero_crc 0x40 [int i * (256 div int 257), 0x00]) [0..<257]\<rparr>)"
    using emits_addressing [OF zero_crc_byte n] o by (rule emitsD)
  then have b: "addressing zero_crc 257 (fresh_port (\<lambda>i. PyNone)) =
       (Inr (), (fresh_port (\<lambda>i. PyNone))\<lparr>tx_log :=
          replicate 257 [0x55, 0xAA, 0x40, 5, 0, 0x00, 0]\<rparr>)"
    by (simp add: cmd_frame_zero_crc c fresh_port_def)
  have "map (\<lambda>i. int i * address_interval 257) [0..<257] = replicate 257 0"
    by (simp add: a c)
  moreover have "(257::nat) = Suc (Suc 255)" by simp
  ultimately have "map (\<lambda>i. int i * address_interval 257) [0..<257]
      = 0 # 0 # replicate 255 0"
    by (simp only: replicate_Suc)
  then have d: "\<not> distinct (map (\<lambda>i. int i * address_interval 257) [0..<257])"
    by simp
  show ?thesis using a b d by simp
qed

section \<open>The enumeration loop on a pyserial port\<close>

text \<open>The loop is left only through \<^verbatim>\<open>if data is None: break\<close>.\<close>

lemma count_loop_needs_None:
  assumes "count_loop len c st = Some y"
  shows "ser_open st \<longrightarrow> (\<exists>i. rx_script st i = PyNone)"
proof (rule count_loop.raw_induct [OF _ assms])
  fix f :: "nat \<Rightarrow> nat \<Rightarrow> hw \<Rightarrow> ((error + nat) \<times> hw) option"
  fix len c st y
  assume IH: "\<And>len c st y. f len c st = Some y \<Longrightarrow> ser_open st \<longrightarrow> (\<exists>i. rx_script st i = PyNone)"
  assume eq: "(case serial_rx_func len 5000 st of
      (Inl e, st1) \<Rightarrow> Some (Inl e, st1)
      | (Inr PyNone, st1) \<Rightarrow> Some (Inr c, st1)
      | (Inr (PyBytes data), st1) \<Rightarrow>
          if \<not> py_in chip_id_response (hexlify data)
          then f len c st1
          else f len (c + 1) st1) = Some y"
  show "ser_open st \<longrightarrow> (\<exists>i. rx_script st i = PyNone)"
  proof
    assume op: "ser_open st"
    show "\<exists>i. rx_script st i = PyNone"
    proof (cases "rx_script st (rx_pos st)")
      case PyNone
      then show ?thesis by blast
    next
      case (PyBytes data)
      let ?st1 = "st\<lparr>rx_pos := rx_pos st + 1\<rparr>"
      from eq op PyBytes have "f len c ?st1 = Some y \<or> f len (c + 1) ?st1 = Some y"
        by (simp add: serial_rx_func_def split: if_splits)
      then have "ser_open ?st1 \<longrightarrow> (\<exists>i. rx_script ?st1 i = PyNone)"
        using IH by blast
      then show ?thesis using op by simp
    qed
  qed
qed

lemma count_loop_pyserial:
  assumes "ser_open st" and "\<And>i. rx_script st i \<noteq> PyNone"
  shows "count_loop len c st = None"
proof (cases "count_loop len c st")
  case None
  then show ?thesis .
next
  case (Some y)
  then show ?thesis using count_loop_needs_None [OF Some] assms by blast
qed


text \<open>
  Claim C2 does not hold of the code. The claim: once a read returns no data (pyserial's
  empty \<open>bytes\<close> on timeout), the loop ends there and the count is returned. The code:
  the loop tests \<^verbatim>\<open>data is None\<close>, which an empty \<open>bytes\<close> object is not, so with
  \<open>serial_rx_func\<close> of \<open>bitaxerawpy.py\<close> every timeout is skipped as a non-matching reply
  and neither \<open>count_asic_chips\<close> nor \<open>send_init\<close> returns.
\<close>

theorem enumeration_never_returns_on_empty_reads:
  "count_asic_chips zero_crc 1 11 (fresh_port (\<lambda>i. PyBytes [])) = None
   \<and> send_init zero_crc (PyInt 400) 1 16 (fresh_port (\<lambda>i. PyBytes [])) = None"
proof -
  let ?st = "fresh_port (\<lambda>i. PyBytes [])"
  have o: "ser_open ?st" by (simp add: fresh_port_def)
  have l: "count_loop 11 0 st = None"
    if "ser_open st" "rx_script st = (\<lambda>i. PyBytes [])" for st
    using that by (intro count_loop_pyserial) simp_all
  have "emits (send zero_crc (TYPE_CMD OR GROUP_ALL OR CMD_READ) [0x00, 0x00])
          [cmd_frame zero_crc 0x52 [0x00, 0x00]]"
    unfolding headers by (intro emits_cmd zero_crc_byte) (simp_all add: is_byte_def)
  from emitsD [OF this o]
  have c: "count_asic_chips zero_crc 1 11 ?st = None"
    by (simp add: count_asic_chips_def l fresh_port_def)
  have "init_enumerate zero_crc 1 ?st = None"
    by (subst init_enumerate_eq [OF zero_crc_byte o]) (simp add: l fresh_port_def)
  then have "send_init zero_crc (PyInt 400) 1 16 ?st = None"
    by (simp add: send_init_def bindP_def)
  with c show ?thesis by simp
qed

section \<open>The PLL search between two equally near candidates\<close>

lemma fl_bounded0:
  assumes "0 \<le> x" and "x \<le> of_int m" and "m < 2 ^ 53"
  shows "\<exists>r. fl x = Inr r \<and> 0 \<le> r \<and> r \<le> of_int m"
proof (cases "x = 0")
  case True
  then show ?thesis using assms(2) by (simp add: fl_zero)
next
  case False
  then have "0 < x" using assms(1) by simp
  then show ?thesis using assms(2,3) by (rule fl_bounded)
qed

lemma candidate_deviation_2_7_7:
  "candidate_deviation (PyFloat near_tie_target) (2, 7, 7) =
     Inr (Some (187, 6713752633277127 / 140737488355328, 14959341874503 / 140737488355328))"
proof -
  have a: "fl (of_int (7 * 7) * near_tie_target) = Inr (5151670105975467 / 2199023255552)"
    by (rule fl_cert [where e = 11 and m = 5151670105975467]) (simp_all add: near_tie_target_def)
  have b: "fl (5151670105975467 / 2199023255552 * of_int 2) = Inr (5151670105975467 / 1099511627776)"
    by (rule fl_cert [where e = 12 and m = 5151670105975467]) simp_all
  have c: "fl (5151670105975467 / 1099511627776 / 25) = Inr (3297068867824299 / 17592186044416)"
    by (rule fl_cert [where e = 7 and m = 6594137735648598]) simp_all
  have r: "round_half_even (3297068867824299 / 17592186044416) = 187"
    by (rule round_half_even_near) simp
  have fb: "temp_fb_divider (PyFloat near_tie_target) 2 7 7 = Inr 187"
    by (simp only: temp_fb_divider_def pynum.case bindE_def a b c r sum.case)
  have d: "fl (4675 / 98) = Inr (6713752633277127 / 140737488355328)"
    by (rule fl_cert [where e = 5 and m = 6713752633277127]) simp_all
  have tf: "temp_freq 187 2 7 7 = Inr (6713752633277127 / 140737488355328)"
    using d by (simp add: temp_freq_def bindE_def fl_numeral)
  have e: "fl (near_tie_target - 6713752633277127 / 140737488355328)
             = Inr (14959341874503 / 140737488355328)"
    by (rule fl_cert [where e = "- 4" and m = 7659183039745536])
      (simp_all add: near_tie_target_def)
  have fd: "freq_diff (PyFloat near_tie_target) (6713752633277127 / 140737488355328)
              = Inr (14959341874503 / 140737488355328)"
    using e by (simp add: freq_diff_def to_float_def bindE_def)
  show ?thesis
    using fb tf fd by (simp add: candidate_deviation_def bindE_def)
qed

lemma candidate_deviation_2_7_6:
  "candidate_deviation (PyFloat near_tie_target) (2, 7, 6) =
     Inr (Some (161, 6743671317026133 / 140737488355328, 14959341874503 / 140737488355328))"
proof -
  have a: "fl (of_int (7 * 6) * near_tie_target) = Inr (4415717233693257 / 2199023255552)"
    by (rule fl_cert [where e = 10 and m = 8831434467386514]) (simp_all add: near_tie_target_def)
  have b: "fl (4415717233693257 / 2199023255552 * of_int 2) = Inr (4415717233693257 / 1099511627776)"
    by (rule fl_cert [where e = 11 and m = 8831434467386514]) simp_all
  have c: "fl (4415717233693257 / 1099511627776 / 25) = Inr (5652118059127369 / 35184372088832)"
    by (rule fl_cert [where e = 7 and m = 5652118059127369]) simp_all
  have r: "round_half_even (5652118059127369 / 35184372088832) = 161"
    by (rule round_half_even_near) simp
  have fb: "temp_fb_divider (PyFloat near_tie_target) 2 7 6 = Inr 161"
    by (simp only: temp_fb_divider_def pynum.case bindE_def a b c r sum.case)
  have d: "fl (4025 / 84) = Inr (6743671317026133 / 140737488355328)"
    by (rule fl_cert [where e = 5 and m = 6743671317026133]) simp_all
  have tf: "temp_freq 161 2 7 6 = Inr (6743671317026133 / 140737488355328)"
    using d by (simp add: temp_freq_def bindE_def fl_numeral)
  have "fl (6743671317026133 / 140737488355328 - near_tie_target)
          = Inr (14959341874503 / 140737488355328)"
    by (rule fl_cert [where e = "- 4" and m = 7659183039745536])
      (simp_all add: near_tie_target_def)
  then have e: "fl (near_tie_target - 6743671317026133 / 140737488355328)
             = Inr (- (14959341874503 / 140737488355328))"
    using fl_minus [of "6743671317026133 / 140737488355328 - near_tie_target"] by simp
  have fd: "freq_diff (PyFloat near_tie_target) (6743671317026133 / 140737488355328)
              = Inr (14959341874503 / 140737488355328)"
    using e by (simp add: freq_diff_def to_float_def bindE_def)
  show ?thesis
    using fb tf fd by (simp add: candidate_deviation_def bindE_def)
qed

lemma candidate_deviation_unordered:
  "p1 < p2 \<Longrightarrow> candidate_deviation target (r, p1, p2) = Inr None"
  by (simp add: candidate_deviation_def)

text \<open>
  Every other triple gives a feedback divider of at most 139: the target is below 48 and
  \<open>ref * pd1 * pd2\<close> at most 72.
\<close>

lemma candidate_deviation_small:
  assumes "1 \<le> r" "1 \<le> p1" "1 \<le> p2" "r * (p1 * p2) \<le> 72"
  shows "candidate_deviation (PyFloat near_tie_target) (r, p1, p2) = Inr None"
proof (cases "p2 \<le> p1")
  case False
  then show ?thesis by (simp add: candidate_deviation_def)
next
  case True
  define k where "k = p1 * p2"
  have "1 * 1 \<le> p1 * p2" using assms by (intro mult_mono) simp_all
  then have k: "1 \<le> k" by (simp add: k_def)
  define j where "j = r * k"
  have rk: "j \<le> 72" using assms(4) by (simp add: k_def j_def)
  have "1 * k \<le> r * k" using assms(1) k by (intro mult_right_mono) simp_all
  then have k72: "k \<le> 72" using rk by (simp add: j_def)
  have T: "0 < near_tie_target" "near_tie_target \<le> 48" by (simp_all add: near_tie_target_def)
  have kr: "(1::rat) \<le> of_int k" using k by simp
  have "0 \<le> of_int k * near_tie_target" using kr T by simp
  moreover have "of_int k * near_tie_target \<le> of_int k * 48"
    using kr T by (intro mult_left_mono) simp_all
  then have "of_int k * near_tie_target \<le> of_int (48 * k)" by simp
  moreover have "48 * k < 2 ^ 53" using k72 by simp
  ultimately obtain a where a: "fl (of_int k * near_tie_target) = Inr a" "0 \<le> a" "a \<le> of_int (48 * k)"
    using fl_bounded0 by blast
  have rr: "(1::rat) \<le> of_int r" using assms(1) by simp
  have "0 \<le> a * of_int r" using a(2) rr by simp
  moreover have "a * of_int r \<le> of_int (48 * k) * of_int r"
    using a(3) rr by (intro mult_right_mono) simp_all
  then have "a * of_int r \<le> of_int (48 * j)" by (simp add: ac_simps j_def)
  moreover have "48 * j < 2 ^ 53" using rk by simp
  ultimately obtain b where b: "fl (a * of_int r) = Inr b" "0 \<le> b" "b \<le> of_int (48 * j)"
    using fl_bounded0 by blast
  have "(of_int (48 * j) :: rat) \<le> of_int 3456" using rk by simp
  then have b3: "b \<le> 3456" using b(3) by simp
  have "0 \<le> b / 25" using b(2) by simp
  moreover have "b / 25 \<le> of_int 139" using b3 by simp
  moreover have "(139::int) < 2 ^ 53" by simp
  ultimately obtain q where q: "fl (b / 25) = Inr q" "0 \<le> q" "q \<le> of_int 139"
    using fl_bounded0 by blast
  have "round_half_even q \<le> 139" using q(3) by (rule round_half_even_le)
  moreover have "temp_fb_divider (PyFloat near_tie_target) r p1 p2 = Inr (round_half_even q)"
    using a(1) b(1) q(1) by (simp add: temp_fb_divider_def bindE_def k_def)
  ultimately show ?thesis using True by (simp add: candidate_deviation_def bindE_def)
qed

lemma pll_search_near_tie:
  "pll_search (PyFloat near_tie_target) =
     Inr \<lparr>fb_divider = 187, post_divider1 = 7, post_divider2 = 7, ref_divider = 2,
          min_difference = 14959341874503 / 140737488355328,
          newf = 6713752633277127 / 140737488355328\<rparr>"
  by (simp add: pll_search_def pll_candidates_def pll_init_def pll_step_eq max_diff_def
      candidate_deviation_2_7_7 candidate_deviation_2_7_6 candidate_deviation_unordered
      candidate_deviation_small)

text \<open>
  Claim C4 as stated fails: the returned set need not have the least deviation
  \<open>|target - 25 * fb / (ref * pd1 * pd2)|\<close>. For the float target \<open>47.810374149659864\<close>
  the search returns \<open>ref = 2\<close>, \<open>pd1 = 7\<close>, \<open>pd2 = 7\<close> with \<open>fb = 187\<close>. The triple
  \<open>ref = 2\<close>, \<open>pd1 = 7\<close>, \<open>pd2 = 6\<close> is a candidate too, with \<open>fb = 161\<close> in
  \<open>[0xA0, 0xEF]\<close> and a deviation below 1.0, and its deviation is strictly smaller. The
  floats do not see it: the two differences round to the same value, the comparison
  \<^verbatim>\<open>freq_diff < min_difference\<close> of line 90 is false, and the set found first stays.
\<close>

theorem pll_search_not_least_deviation_counterexample:
  "pll_search (PyFloat near_tie_target) =
     Inr \<lparr>fb_divider = 187, post_divider1 = 7, post_divider2 = 7, ref_divider = 2,
          min_difference = 14959341874503 / 140737488355328,
          newf = 6713752633277127 / 140737488355328\<rparr>
   \<and> temp_fb_divider (PyFloat near_tie_target) 2 7 6 = Inr 161
   \<and> candidate (PyFloat near_tie_target) (2, 7, 6)
   \<and> rounded_feedback (PyFloat near_tie_target) (2, 7, 6) = 161
   \<and> rounded_feedback (PyFloat near_tie_target) (2, 7, 7) = 187
   \<and> \<bar>near_tie_target - 25 * 161 / (2 * 7 * 6)\<bar> < \<bar>near_tie_target - 25 * 187 / (2 * 7 * 7)\<bar>
   \<and> \<bar>near_tie_target - 25 * 161 / (2 * 7 * 6)\<bar> < 1
   \<and> exact_deviation (PyFloat near_tie_target) (2, 7, 6)
       < exact_deviation (PyFloat near_tie_target) (2, 7, 7)"
proof -
  have fb6: "temp_fb_divider (PyFloat near_tie_target) 2 7 6 = Inr 161"
    using candidate_deviation_2_7_6 by (rule candidate_deviation_SomeD(2))
  have fb7: "temp_fb_divider (PyFloat near_tie_target) 2 7 7 = Inr 187"
    using candidate_deviation_2_7_7 by (rule candidate_deviation_SomeD(2))
  have r6: "rounded_feedback (PyFloat near_tie_target) (2, 7, 6) = 161"
    using temp_fb_divider_InrD [OF fb6] by simp
  have r7: "rounded_feedback (PyFloat near_tie_target) (2, 7, 7) = 187"
    using temp_fb_divider_InrD [OF fb7] by simp
  have c6: "candidate (PyFloat near_tie_target) (2, 7, 6)"
    by (simp add: candidate_def r6)
  have lt: "\<bar>near_tie_target - 25 * 161 / (2 * 7 * 6)\<bar> < \<bar>near_tie_target - 25 * 187 / (2 * 7 * 7)\<bar>"
    by (simp add: near_tie_target_def)
  have lt1: "\<bar>near_tie_target - 25 * 161 / (2 * 7 * 6)\<bar> < 1"
    by (simp add: near_tie_target_def)
  have ex: "exact_deviation (PyFloat near_tie_target) (2, 7, 6)
       < exact_deviation (PyFloat near_tie_target) (2, 7, 7)"
    unfolding exact_deviation_def exact_target_def prod.case pynum.case r6 r7
    by (simp add: near_tie_target_def)
  show ?thesis
    using pll_search_near_tie fb6 c6 r6 r7 lt lt1 ex by (intro conjI) assumption+
qed


end
